theory Spec2Isabelle
  imports Complex_Main "HOL-Library.AList" "HOL-Library.Char_ord" "HOL-Library.List_Lexorder"
    "HOL-Library.Product_Lexorder" "HOL-Library.Sublist"
begin

section \<open>Python values used by \<^verbatim>\<open>analyze_exit_survey.py\<close>\<close>

text \<open>
  Strings are \<open>string\<close>; a character stands for the code point of the same number, so the
  model covers code points 0..255. Python \<open>int\<close> is \<open>int\<close>. A \<open>dict\<close> is an association
  list in insertion order: \<open>map_of\<close> reads it and \<open>AList.update\<close> writes it (an existing key
  keeps its position, a new key goes to the end, as in Python). Exceptions are values of
  \<open>error\<close>; a function that can raise returns \<open>error + 'a\<close>.
\<close>

datatype error = KeyError | IndexError | ValueError string | OverflowError

definition invalid_literal :: error where
  "invalid_literal = ValueError ''invalid literal for int() with base 10''"

definition empty_max :: error where
  "empty_max = ValueError ''max() arg is an empty sequence''"

definition structure_error :: error where
  "structure_error = ValueError ''Unexpected worksheet structure. Expected metadata rows + data.''"

definition ord :: "char \<Rightarrow> int" where
  "ord c = of_char c"

text \<open>The character classes of the regular expressions: \<^verbatim>\<open>[A-Z]\<close> and \<^verbatim>\<open>\d\<close>.\<close>

definition is_upper :: "char \<Rightarrow> bool" where
  "is_upper c = (65 \<le> ord c \<and> ord c \<le> 90)"

definition is_digit :: "char \<Rightarrow> bool" where
  "is_digit c = (48 \<le> ord c \<and> ord c \<le> 57)"

text \<open>Whitespace as \<^verbatim>\<open>str.strip()\<close> and \<^verbatim>\<open>int()\<close> see it, for code points below 256.\<close>

definition is_space :: "char \<Rightarrow> bool" where
  "is_space c = (ord c \<in> {9, 10, 11, 12, 13, 28, 29, 30, 31, 32, 133, 160})"

definition strip :: "string \<Rightarrow> string" where
  "strip s = rev (dropWhile is_space (rev (dropWhile is_space s)))"

definition dict_get :: "('k \<times> 'v) list \<Rightarrow> 'k \<Rightarrow> 'v \<Rightarrow> 'v" where
  "dict_get d k dflt = (case map_of d k of None \<Rightarrow> dflt | Some v \<Rightarrow> v)"

text \<open>\<^verbatim>\<open>xs[i]\<close>: a negative index counts from the end, anything out of range raises.\<close>

definition py_index :: "'a list \<Rightarrow> int \<Rightarrow> error + 'a" where
  "py_index xs i =
     (if 0 \<le> i \<and> i < int (length xs) then Inr (xs ! nat i)
      else if i < 0 \<and> - int (length xs) \<le> i then Inr (xs ! nat (int (length xs) + i))
      else Inl IndexError)"

text \<open>
  \<^verbatim>\<open>int(raw)\<close> on a string: surrounding whitespace is dropped, one sign is allowed, then
  decimal digits, with single underscores between digits. The whitespace of \<^verbatim>\<open>int\<close> is
  not that of \<^verbatim>\<open>strip\<close>: the separators 28 to 31 are not dropped. The interpreter's
  configurable limit on the number of digits is not modelled.
\<close>

definition is_int_space :: "char \<Rightarrow> bool" where
  "is_int_space c = (ord c \<in> {9, 10, 11, 12, 13, 32, 133, 160})"

definition int_strip :: "string \<Rightarrow> string" where
  "int_strip s = rev (dropWhile is_int_space (rev (dropWhile is_int_space s)))"

definition digit_val :: "char \<Rightarrow> nat" where
  "digit_val c = nat (ord c - 48)"

fun int_digits :: "nat \<Rightarrow> string \<Rightarrow> nat option" where
  "int_digits acc [] = Some acc"
| "int_digits acc [c] = (if is_digit c then Some (acc * 10 + digit_val c) else None)"
| "int_digits acc (c # d # cs) =
     (if is_digit c then int_digits (acc * 10 + digit_val c) (d # cs)
      else if c = CHR ''_'' \<and> is_digit d then int_digits (acc * 10 + digit_val d) cs
      else None)"

definition int_literal :: "string \<Rightarrow> nat option" where
  "int_literal s =
     (case s of [] \<Rightarrow> None
      | c # cs \<Rightarrow> if is_digit c then int_digits (digit_val c) cs else None)"

definition py_int :: "string \<Rightarrow> int option" where
  "py_int raw =
     (case int_strip raw of [] \<Rightarrow> None
      | c # cs \<Rightarrow>
          if c = CHR ''-'' then map_option (\<lambda>n. - int n) (int_literal cs)
          else if c = CHR ''+'' then map_option int (int_literal cs)
          else map_option int (int_literal (c # cs)))"

text \<open>\<^verbatim>\<open>str(n)\<close> for the \<^verbatim>\<open>f"COL_{idx}"\<close> of the table assembler.\<close>

definition digit_char :: "nat \<Rightarrow> char" where
  "digit_char d = ''0123456789'' ! d"

fun str_nat :: "nat \<Rightarrow> string" where
  "str_nat n = (if n < 10 then [digit_char n] else str_nat (n div 10) @ [digit_char (n mod 10)])"

declare str_nat.simps [simp del]

definition str_int :: "int \<Rightarrow> string" where
  "str_int i = (if i < 0 then CHR ''-'' # str_nat (nat (- i)) else str_nat (nat i))"

text \<open>\<^verbatim>\<open>max(xs, default=d)\<close> and \<^verbatim>\<open>max(xs)\<close>, which raises on an empty sequence.\<close>

definition max_default :: "int list \<Rightarrow> int \<Rightarrow> int" where
  "max_default xs d = (case xs of [] \<Rightarrow> d | x # rest \<Rightarrow> fold max rest x)"

definition py_max :: "int list \<Rightarrow> error + int" where
  "py_max xs = (case xs of [] \<Rightarrow> Inl empty_max | x # rest \<Rightarrow> Inr (fold max rest x))"

text \<open>\<^verbatim>\<open>sep in s\<close>, \<^verbatim>\<open>s.startswith(p)\<close> and \<^verbatim>\<open>s.split(sep)\<close> for a non-empty separator.\<close>

definition startswith :: "string \<Rightarrow> string \<Rightarrow> bool" where
  "startswith s p = (take (length p) s = p)"

fun str_contains :: "string \<Rightarrow> string \<Rightarrow> bool" where
  "str_contains sep [] = (sep = [])"
| "str_contains sep (c # cs) = (startswith (c # cs) sep \<or> str_contains sep cs)"

function split_loop :: "string \<Rightarrow> string \<Rightarrow> string \<Rightarrow> string list" where
  "split_loop sep cur s =
     (if s = [] then [cur]
      else if sep \<noteq> [] \<and> startswith s sep then cur # split_loop sep [] (drop (length sep) s)
      else split_loop sep (cur @ [hd s]) (tl s))"
  by pat_completeness auto
termination
  by (relation "measure (\<lambda>(sep, cur, s). length s)") auto

declare split_loop.simps [simp del]

definition py_split :: "string \<Rightarrow> string \<Rightarrow> string list" where
  "py_split s sep = split_loop sep [] s"

section \<open>The cell reference decoder\<close>

definition col_to_index :: "string \<Rightarrow> int" where
  "col_to_index col_ref = foldl (\<lambda>total char. total * 26 + (ord char - 64)) 0 col_ref - 1"

abbreviation col_acc :: "int \<Rightarrow> string \<Rightarrow> int" where
  "col_acc a xs \<equiv> foldl (\<lambda>total char. total * 26 + (ord char - 64)) a xs"

text \<open>
  A valid column reference is one or more uppercase letters, what the pattern
  \<^verbatim>\<open>([A-Z]+)\<close> hands to the decoder. The order on references is by length first and
  lexicographic (by code point) among references of one length.
\<close>

definition is_col_ref :: "string \<Rightarrow> bool" where
  "is_col_ref r = (r \<noteq> [] \<and> list_all is_upper r)"

definition shortlex_less :: "string \<Rightarrow> string \<Rightarrow> bool" where
  "shortlex_less r s = (length r < length s \<or> (length r = length s \<and> r < s))"

section \<open>XML elements as \<^verbatim>\<open>xml.etree.ElementTree\<close> presents them\<close>

text \<open>
  An element has a tag, attributes, the text before its first child (\<open>None\<close> when there is
  none) and children in document order. An archive maps an entry name to the root of the
  parsed entry; decompression and XML parsing are not modelled.
\<close>

datatype element =
  Element (tag: string) (attrib: "(string \<times> string) list") (text_of: "string option")
    (children: "element list")

type_synonym archive = "(string \<times> element) list"

definition ns :: "string \<Rightarrow> string" where
  "ns name = ''{http://schemas.openxmlformats.org/spreadsheetml/2006/main}'' @ name"

text \<open>\<^verbatim>\<open>elem.iter()\<close>: the element and all its descendants, in document order.\<close>

fun iter :: "element \<Rightarrow> element list" where
  "iter (Element t a x cs) = Element t a x cs # concat (map iter cs)"

text \<open>
  \<^verbatim>\<open>findall("a:name")\<close> selects children, \<^verbatim>\<open>findall(".//a:name")\<close> selects proper
  descendants, and a path \<^verbatim>\<open>p/a:name\<close> selects the children of what \<open>p\<close> selects, one
  parent after the other. \<^verbatim>\<open>find\<close> is the first element of \<^verbatim>\<open>findall\<close>.
\<close>

definition findall_child :: "string \<Rightarrow> element \<Rightarrow> element list" where
  "findall_child name elem = filter (\<lambda>e. tag e = ns name) (children elem)"

definition findall_desc :: "string \<Rightarrow> element \<Rightarrow> element list" where
  "findall_desc name elem = filter (\<lambda>e. tag e = ns name) (concat (map iter (children elem)))"

definition find_first :: "'a list \<Rightarrow> 'a option" where
  "find_first xs = (case xs of [] \<Rightarrow> None | x # _ \<Rightarrow> Some x)"

definition text_or_empty :: "element \<Rightarrow> string" where
  "text_or_empty node = (case text_of node of None \<Rightarrow> [] | Some t \<Rightarrow> t)"

section \<open>\<^verbatim>\<open>parse_xlsx\<close>\<close>

type_synonym raw_row = "(int \<times> string) list"
type_synonym record_row = "(string \<times> string) list"
type_synonym questions = "(string \<times> string) list"

subsection \<open>The shared-string table loader\<close>

definition si_text :: "element \<Rightarrow> string" where
  "si_text si = concat (map text_or_empty (findall_desc ''t'' si))"

definition load_shared_strings :: "archive \<Rightarrow> string list" where
  "load_shared_strings zf =
     (case map_of zf ''xl/sharedStrings.xml'' of
        None \<Rightarrow> []
      | Some shared_root \<Rightarrow> map si_text (findall_child ''si'' shared_root))"

subsection \<open>The worksheet row parser\<close>

text \<open>The variable \<^verbatim>\<open>value\<close> of one cell, before it is stripped and stored.\<close>

definition cell_value :: "string list \<Rightarrow> element \<Rightarrow> error + string" where
  "cell_value shared_strings cell =
     (let cell_type = map_of (attrib cell) ''t'' in
      if cell_type = Some ''inlineStr'' then
        (case find_first (concat (map (findall_child ''t'') (findall_child ''is'' cell))) of
           None \<Rightarrow> Inr []
         | Some node \<Rightarrow> Inr (text_or_empty node))
      else
        (case find_first (findall_child ''v'' cell) of
           None \<Rightarrow> Inr []
         | Some node \<Rightarrow>
             (case text_of node of
                None \<Rightarrow> Inr []
              | Some raw \<Rightarrow>
                  if cell_type = Some ''s'' then
                    (case py_int raw of
                       None \<Rightarrow> Inl invalid_literal
                     | Some i \<Rightarrow> py_index shared_strings i)
                  else Inr raw)))"

text \<open>The column a cell is stored at: \<open>None\<close> when the pattern does not match.\<close>

definition cell_col :: "element \<Rightarrow> int option" where
  "cell_col cell =
     (let ref = dict_get (attrib cell) ''r'' []; m = takeWhile is_upper ref
      in if m = [] then None else Some (col_to_index m))"

definition cell_step :: "string list \<Rightarrow> element \<Rightarrow> raw_row \<Rightarrow> error + raw_row" where
  "cell_step shared_strings cell values =
     (case cell_col cell of
        None \<Rightarrow> Inr values
      | Some col_idx \<Rightarrow>
          (case cell_value shared_strings cell of
             Inl e \<Rightarrow> Inl e
           | Inr v \<Rightarrow> Inr (AList.update col_idx (strip v) values)))"

fun cells_loop :: "string list \<Rightarrow> element list \<Rightarrow> raw_row \<Rightarrow> error + raw_row" where
  "cells_loop shared_strings [] values = Inr values"
| "cells_loop shared_strings (cell # rest) values =
     (case cell_step shared_strings cell values of
        Inl e \<Rightarrow> Inl e
      | Inr values' \<Rightarrow> cells_loop shared_strings rest values')"

definition parse_row :: "string list \<Rightarrow> element \<Rightarrow> error + raw_row" where
  "parse_row shared_strings row = cells_loop shared_strings (findall_child ''c'' row) []"

fun rows_loop :: "string list \<Rightarrow> element list \<Rightarrow> raw_row list \<Rightarrow> error + raw_row list" where
  "rows_loop shared_strings [] rows = Inr rows"
| "rows_loop shared_strings (row # rest) rows =
     (case parse_row shared_strings row of
        Inl e \<Rightarrow> Inl e
      | Inr values \<Rightarrow> rows_loop shared_strings rest (rows @ [values]))"

definition sheet_rows :: "element \<Rightarrow> element list" where
  "sheet_rows sheet_root = concat (map (findall_child ''row'') (findall_desc ''sheetData'' sheet_root))"

definition parse_rows :: "string list \<Rightarrow> element \<Rightarrow> error + raw_row list" where
  "parse_rows shared_strings sheet_root = rows_loop shared_strings (sheet_rows sheet_root) []"

subsection \<open>The table assembler\<close>

fun schema_loop ::
  "raw_row \<Rightarrow> raw_row \<Rightarrow> int list \<Rightarrow> string list \<times> questions \<Rightarrow> string list \<times> questions" where
  "schema_loop header_row question_row [] acc = acc"
| "schema_loop header_row question_row (idx # rest) (columns, questions) =
     (let col_name = dict_get header_row idx (''COL_'' @ str_int idx)
      in schema_loop header_row question_row rest
           (columns @ [col_name], AList.update col_name (dict_get question_row idx []) questions))"

definition mk_record :: "string list \<Rightarrow> raw_row \<Rightarrow> record_row" where
  "mk_record columns row =
     fold (\<lambda>(idx, col_name). AList.update col_name (dict_get row (int idx) []))
       (List.enumerate 0 columns) []"

definition assemble :: "raw_row list \<Rightarrow> error + (string list \<times> record_row list \<times> questions)" where
  "assemble rows =
     (if length rows < 4 then Inl structure_error
      else
        (case py_max (map (\<lambda>row. max_default (map fst row) 0) rows) of
           Inl e \<Rightarrow> Inl e
         | Inr max_col \<Rightarrow>
             (let header_row = rows ! 0;
                  question_row = rows ! 1;
                  (columns, questions) = schema_loop header_row question_row [0..max_col] ([], []);
                  records = map (mk_record columns) (drop 3 rows)
              in Inr (columns, records, questions))))"

definition parse_xlsx :: "archive \<Rightarrow> error + (string list \<times> record_row list \<times> questions)" where
  "parse_xlsx zf =
     (let shared_strings = load_shared_strings zf in
      case map_of zf ''xl/worksheets/sheet1.xml'' of
        None \<Rightarrow> Inl KeyError
      | Some sheet_root \<Rightarrow>
          (case parse_rows shared_strings sheet_root of
             Inl e \<Rightarrow> Inl e
           | Inr rows \<Rightarrow> assemble rows))"

section \<open>\<^verbatim>\<open>parse_course_name\<close> and \<^verbatim>\<open>clean_numeric\<close>\<close>

definition parse_course_name :: "string \<Rightarrow> string" where
  "parse_course_name question_text =
     (if str_contains '' - '' question_text then strip (last (py_split question_text '' - ''))
      else if strip question_text \<noteq> [] then strip question_text
      else ''Unknown Course'')"

text \<open>\<^verbatim>\<open>re.fullmatch(r"\d+(\.0+)?", value)\<close>.\<close>

definition matches_numeric :: "string \<Rightarrow> bool" where
  "matches_numeric v =
     (let ds = takeWhile is_digit v; rest = dropWhile is_digit v
      in ds \<noteq> [] \<and>
         (rest = [] \<or> (hd rest = CHR ''.'' \<and> tl rest \<noteq> [] \<and> list_all (\<lambda>c. c = CHR ''0'') (tl rest))))"

definition digits_val :: "string \<Rightarrow> nat" where
  "digits_val ds = foldl (\<lambda>acc c. acc * 10 + digit_val c) 0 ds"

text \<open>
  \<^verbatim>\<open>float(value)\<close> on a matched string is the double nearest to the integer its digits
  denote (ties to even), or infinity; \<^verbatim>\<open>int\<close> of a finite double that is an integer is
  that integer, and \<^verbatim>\<open>int\<close> of infinity raises \<^verbatim>\<open>OverflowError\<close>. \<open>None\<close> is infinity.
\<close>

fun bit_length :: "nat \<Rightarrow> nat" where
  "bit_length n = (if n = 0 then 0 else Suc (bit_length (n div 2)))"

declare bit_length.simps [simp del]

definition float_of_nat :: "nat \<Rightarrow> nat option" where
  "float_of_nat n =
     (if n < 2 ^ 53 then Some n
      else
        (let e = bit_length n - 53;
             q = n div 2 ^ e;
             r = n mod 2 ^ e;
             q' = (if 2 * r > 2 ^ e \<or> (2 * r = 2 ^ e \<and> odd q) then q + 1 else q);
             m = q' * 2 ^ e
         in if m < 2 ^ 1024 then Some m else None))"

definition clean_numeric :: "string \<Rightarrow> error + int option" where
  "clean_numeric raw =
     (let v = strip raw in
      if v = [] then Inr None
      else if matches_numeric v then
        (case float_of_nat (digits_val (takeWhile is_digit v)) of
           None \<Rightarrow> Inl OverflowError
         | Some m \<Rightarrow> Inr (Some (int m)))
      else Inr None)"

section \<open>Normalization, aggregation and ranking in \<^verbatim>\<open>main\<close>\<close>

text \<open>
  Scores are Python floats. A finite double is modelled by the rational it denotes, and
  \<open>round_double\<close> takes a rational to the nearest double, ties to the even mantissa:
  the mantissa has 53 bits, and below \<open>2\<close> to the \<open>- 1022\<close> the spacing stays at \<open>2\<close> to the
  \<open>- 1074\<close>. There is no largest double in the model; the values that \<^verbatim>\<open>main\<close> rounds are
  sums of scores between 0 and 100 and list lengths, far below \<open>2\<close> to the 1024. Every
  normalized score is a multiple of 12.5 between 0 and 100, which a double holds exactly,
  so the arithmetic of lines 157 and 175 is exact (\<open>core_score_exact\<close> and
  \<open>elective_score_exact\<close> below). The formatting of the numbers into the
  report rows happens in the source when a row is written and is left out.
\<close>

definition ilog2 :: "rat \<Rightarrow> int" where
  "ilog2 x =
     (if 1 \<le> x then int (bit_length (nat \<lfloor>x\<rfloor>)) - 1
      else - int (bit_length (nat (\<lceil>1 / x\<rceil> - 1))))"

definition round_half_even :: "rat \<Rightarrow> int" where
  "round_half_even m =
     (if m - of_int \<lfloor>m\<rfloor> > 1 / 2 \<or> (m - of_int \<lfloor>m\<rfloor> = 1 / 2 \<and> odd \<lfloor>m\<rfloor>) then \<lfloor>m\<rfloor> + 1
      else \<lfloor>m\<rfloor>)"

definition round_double :: "rat \<Rightarrow> rat" where
  "round_double x =
     (if x = 0 then 0
      else (let e = max (ilog2 \<bar>x\<bar> - 52) (- 1074)
            in of_int (round_half_even (x / 2 powi e)) * 2 powi e))"

text \<open>
  \<^verbatim>\<open>math.fsum\<close> is the double nearest to the exact sum, and \<^verbatim>\<open>statistics.fmean\<close> is
  \<^verbatim>\<open>fsum(data) / n\<close>: the length becomes a double and the quotient is rounded. It raises on
  an empty list; \<^verbatim>\<open>main\<close> calls it on non-empty lists only.
\<close>

definition fsum :: "rat list \<Rightarrow> rat" where
  "fsum xs = round_double (sum_list xs)"

definition fmean :: "rat list \<Rightarrow> rat" where
  "fmean xs = round_double (fsum xs / round_double (of_nat (length xs)))"

datatype source_type = core_rank | elective_rating

record long_row =
  response_id :: string
  lr_course :: string
  source_type :: source_type
  response_value :: int
  normalized_score :: rat

type_synonym course_scores = "(string \<times> rat list \<times> rat list) list"
type_synonym agg_state = "long_row list \<times> course_scores"

definition core_fields :: "questions \<Rightarrow> string list" where
  "core_fields questions = filter (\<lambda>name. startswith name ''Q35_'') (map fst questions)"

definition elective_fields :: "string list" where
  "elective_fields =
     [''Q76_1'', ''Q77_2'', ''Q78_3'', ''Q83_4'', ''Q82_5'', ''Q80_6'', ''Q81_9'', ''Q79_7'']"

definition is_finished :: "record_row \<Rightarrow> bool" where
  "is_finished row = (strip (dict_get row ''Finished'' []) \<in> set [''1'', ''true'', ''TRUE'', ''True''])"

definition core_score :: "int \<Rightarrow> rat" where
  "core_score rank = (of_int (9 - rank) / 8) * 100"

definition elective_score :: "int \<Rightarrow> rat" where
  "elective_score rating = (of_int (rating - 1) / 4) * 100"

text \<open>
  \<^verbatim>\<open>course_scores[course][kind].append(norm_score)\<close> on the \<^verbatim>\<open>defaultdict\<close>, followed by
  \<^verbatim>\<open>long_rows.append(...)\<close>.
\<close>

definition append_score :: "source_type \<Rightarrow> string \<Rightarrow> rat \<Rightarrow> course_scores \<Rightarrow> course_scores" where
  "append_score kind course s cs =
     (case dict_get cs course ([], []) of
        (core_vals, elec_vals) \<Rightarrow>
          AList.update course
            (if kind = core_rank then (core_vals @ [s], elec_vals) else (core_vals, elec_vals @ [s])) cs)"

definition record_score ::
  "source_type \<Rightarrow> string \<Rightarrow> string \<Rightarrow> int \<Rightarrow> rat \<Rightarrow> agg_state \<Rightarrow> agg_state" where
  "record_score kind respondent_id course v s st =
     (case st of (long_rows, cs) \<Rightarrow>
        (long_rows @ [\<lparr>response_id = respondent_id, lr_course = course, source_type = kind,
                       response_value = v, normalized_score = s\<rparr>],
         append_score kind course s cs))"

definition core_step :: "questions \<Rightarrow> record_row \<Rightarrow> string \<Rightarrow> agg_state \<Rightarrow> error + agg_state" where
  "core_step questions row field st =
     (case clean_numeric (dict_get row field []) of
        Inl e \<Rightarrow> Inl e
      | Inr None \<Rightarrow> Inr st
      | Inr (Some rank) \<Rightarrow>
          if rank < 1 \<or> rank > 8 then Inr st
          else Inr (record_score core_rank (dict_get row ''ResponseId'' [])
                      (parse_course_name (dict_get questions field [])) rank (core_score rank) st))"

definition elective_step :: "questions \<Rightarrow> record_row \<Rightarrow> string \<Rightarrow> agg_state \<Rightarrow> error + agg_state" where
  "elective_step questions row field st =
     (case clean_numeric (dict_get row field []) of
        Inl e \<Rightarrow> Inl e
      | Inr None \<Rightarrow> Inr st
      | Inr (Some rating) \<Rightarrow>
          if rating < 1 \<or> rating > 5 then Inr st
          else Inr (record_score elective_rating (dict_get row ''ResponseId'' [])
                      (parse_course_name (dict_get questions field [])) rating (elective_score rating) st))"

text \<open>A \<^verbatim>\<open>for\<close> loop whose body can raise: the first exception ends it.\<close>

fun for_each :: "('a \<Rightarrow> 's \<Rightarrow> error + 's) \<Rightarrow> 'a list \<Rightarrow> 's \<Rightarrow> error + 's" where
  "for_each body [] st = Inr st"
| "for_each body (x # xs) st =
     (case body x st of Inl e \<Rightarrow> Inl e | Inr st' \<Rightarrow> for_each body xs st')"

definition row_step :: "questions \<Rightarrow> record_row \<Rightarrow> agg_state \<Rightarrow> error + agg_state" where
  "row_step questions row st =
     (if \<not> is_finished row then Inr st
      else
        (case for_each (core_step questions row) (core_fields questions) st of
           Inl e \<Rightarrow> Inl e
         | Inr st' \<Rightarrow> for_each (elective_step questions row) elective_fields st'))"

definition aggregate :: "questions \<Rightarrow> record_row list \<Rightarrow> error + agg_state" where
  "aggregate questions rows = for_each (row_step questions) rows ([], [])"

record ranking_row =
  course :: string
  overall_score :: rat
  num_responses :: nat
  core_pref_score :: "rat option"
  core_n :: nat
  elective_rating_score :: "rat option"
  elective_n :: nat

definition ranking_entry :: "string \<times> rat list \<times> rat list \<Rightarrow> ranking_row list" where
  "ranking_entry item =
     (case item of (c, core_vals, elec_vals) \<Rightarrow>
        (let all_vals = core_vals @ elec_vals in
         if all_vals = [] then []
         else [\<lparr>course = c, overall_score = fmean all_vals, num_responses = length all_vals,
                 core_pref_score = (if core_vals \<noteq> [] then Some (fmean core_vals) else None),
                 core_n = length core_vals,
                 elective_rating_score = (if elec_vals \<noteq> [] then Some (fmean elec_vals) else None),
                 elective_n = length elec_vals\<rparr>]))"

definition sort_key_of :: "ranking_row \<Rightarrow> rat \<times> int \<times> string" where
  "sort_key_of r = (- overall_score r, - int (num_responses r), course r)"

definition ranking_rows :: "course_scores \<Rightarrow> (nat \<times> ranking_row) list" where
  "ranking_rows cs = List.enumerate 1 (sort_key sort_key_of (concat (map ranking_entry cs)))"

definition analyze ::
  "archive \<Rightarrow> error + (long_row list \<times> (nat \<times> ranking_row) list)" where
  "analyze zf =
     (case parse_xlsx zf of
        Inl e \<Rightarrow> Inl e
      | Inr (cols, rows, questions) \<Rightarrow>
          (case aggregate questions rows of
             Inl e \<Rightarrow> Inl e
           | Inr (long_rows, cs) \<Rightarrow> Inr (long_rows, ranking_rows cs)))"

section \<open>Notions used to state the properties\<close>

text \<open>
  The largest column index observed in a sequence of raw rows, an empty row counting as 0,
  in the words of the specification; the assembler's own computation is \<open>py_max\<close> over
  \<open>max_default\<close>.
\<close>

definition spec_max_col :: "raw_row list \<Rightarrow> int" where
  "spec_max_col rows = Max (set (map (\<lambda>row. if row = [] then 0 else Max (set (map fst row))) rows))"

text \<open>The name the assembler gives to column \<open>idx\<close>.\<close>

definition col_name_at :: "raw_row \<Rightarrow> int \<Rightarrow> string" where
  "col_name_at header_row idx = (case map_of header_row idx of None \<Rightarrow> ''COL_'' @ str_int idx | Some v \<Rightarrow> v)"

text \<open>
  The elements below a list of siblings in document order; the rows that the path
  \<^verbatim>\<open>.//a:sheetData/a:row\<close> selects below them; and the condition that no \<open>sheetData\<close>
  element lies inside another one.
\<close>

definition doc_order :: "element list \<Rightarrow> element list" where
  "doc_order es = concat (map iter es)"

definition rows_below :: "element list \<Rightarrow> element list" where
  "rows_below es =
     concat (map (findall_child ''row'') (filter (\<lambda>e. tag e = ns ''sheetData'') (doc_order es)))"

definition not_nested :: "element list \<Rightarrow> bool" where
  "not_nested es =
     (\<forall>sd\<in>set (filter (\<lambda>e. tag e = ns ''sheetData'') (doc_order es)).
        findall_desc ''sheetData'' sd = [])"

text \<open>The cells of a row element that are stored at column \<open>k\<close>, in document order.\<close>

definition cells_at :: "element \<Rightarrow> int \<Rightarrow> element list" where
  "cells_at row k = filter (\<lambda>cell. cell_col cell = Some k) (findall_child ''c'' row)"

abbreviation upd_pair :: "'k \<times> 'v \<Rightarrow> ('k \<times> 'v) list \<Rightarrow> ('k \<times> 'v) list" where
  "upd_pair \<equiv> (\<lambda>(k, v). AList.update k v)"

text \<open>
  The scores of one kind that the long-format rows hold for a course, and the core scores
  followed by the elective scores: what \<^verbatim>\<open>main\<close> pools into \<^verbatim>\<open>all_vals\<close>.
\<close>

definition scores_of :: "source_type \<Rightarrow> string \<Rightarrow> long_row list \<Rightarrow> rat list" where
  "scores_of kind c long_rows =
     map normalized_score (filter (\<lambda>r. lr_course r = c \<and> source_type r = kind) long_rows)"

definition pooled :: "string \<Rightarrow> long_row list \<Rightarrow> rat list" where
  "pooled c long_rows = scores_of core_rank c long_rows @ scores_of elective_rating c long_rows"

text \<open>
  The accumulator agrees with the long-format rows: its keys are distinct, they are the
  courses of the rows, and each key holds the core and the elective scores of its course in
  the order the rows were appended.
\<close>

definition agg_inv :: "agg_state \<Rightarrow> bool" where
  "agg_inv st =
     (case st of (long_rows, cs) \<Rightarrow>
        distinct (map fst cs) \<and> fst ` set cs = lr_course ` set long_rows \<and>
        (\<forall>c. c \<in> fst ` set cs \<longrightarrow>
           map_of cs c = Some (scores_of core_rank c long_rows, scores_of elective_rating c long_rows)))"

text \<open>
  The ranking order in the words of the specification: overall score descending, then
  response count descending, then course name ascending.
\<close>

definition ranks_before :: "ranking_row \<Rightarrow> ranking_row \<Rightarrow> bool" where
  "ranks_before a b =
     (overall_score a > overall_score b \<or>
      (overall_score a = overall_score b \<and>
       (num_responses a > num_responses b \<or>
        (num_responses a = num_responses b \<and> course a < course b))))"

section \<open>Example archives\<close>

text \<open>
  A workbook with a shared-string table of two items, the second one rich text in two runs,
  and a worksheet of five rows: names, question texts, an empty separator row and two data
  rows. The fourth row holds a cell without a reference, which the row parser skips.
\<close>

definition el :: "string \<Rightarrow> (string \<times> string) list \<Rightarrow> string option \<Rightarrow> element list \<Rightarrow> element" where
  "el name attrs txt kids = Element (ns name) attrs txt kids"

definition example_strings :: element where
  "example_strings =
     el ''sst'' [] None
       [el ''si'' [] None [el ''t'' [] (Some ''Finished'') []],
        el ''si'' [] None
          [el ''r'' [] None [el ''rPr'' [] None [], el ''t'' [] (Some ''Tax '') []],
           el ''r'' [] None [el ''t'' [] (Some ''Law'') []]]]"

definition example_sheet :: element where
  "example_sheet =
     el ''worksheet'' [] None
       [el ''sheetData'' [] None
          [el ''row'' [] None
             [el ''c'' [(''r'', ''A1''), (''t'', ''s'')] None [el ''v'' [] (Some ''0'') []],
              el ''c'' [(''r'', ''B1''), (''t'', ''inlineStr'')] None
                [el ''is'' [] None [el ''t'' [] (Some ''Q35_1'') []]]],
           el ''row'' [] None
             [el ''c'' [(''r'', ''A2'')] None [el ''v'' [] (Some '' Done? '') []],
              el ''c'' [(''r'', ''B2''), (''t'', ''s'')] None [el ''v'' [] (Some ''1'') []]],
           el ''row'' [] None [],
           el ''row'' [] None
             [el ''c'' [(''r'', ''A4'')] None [el ''v'' [] (Some ''1'') []],
              el ''c'' [(''t'', ''s'')] None [el ''v'' [] (Some ''x'') []],
              el ''c'' [(''r'', ''B4'')] None [el ''v'' [] (Some '' 1 '') []]],
           el ''row'' [] None
             [el ''c'' [(''r'', ''A5'')] None []]]]"

definition example_archive :: archive where
  "example_archive =
     [(''xl/sharedStrings.xml'', example_strings), (''xl/worksheets/sheet1.xml'', example_sheet)]"

text \<open>
  A row with cells in columns \<open>AA\<close>, \<open>B\<close> and \<open>ZZ\<close>: column \<open>AA\<close> is written twice, the
  cell in \<open>ZZ\<close> refers to the last shared string, and the last cell has no column letters.
\<close>

definition wide_sheet :: element where
  "wide_sheet =
     el ''worksheet'' [] None
       [el ''sheetData'' [] None
          [el ''row'' [] None
             [el ''c'' [(''r'', ''AA7'')] None [el ''v'' [] (Some '' 27th '') []],
              el ''c'' [(''r'', ''B7''), (''t'', ''inlineStr'')] None
                [el ''is'' [] None [el ''t'' [] (Some ''second'') []]],
              el ''c'' [(''r'', ''ZZ7''), (''t'', ''s'')] None [el ''v'' [] (Some ''-1'') []],
              el ''c'' [(''r'', ''AA7'')] None [el ''v'' [] (Some ''again'') []],
              el ''c'' [(''r'', ''7'')] None [el ''v'' [] (Some ''no column'') []]]]]"

text \<open>A worksheet of three rows, one too few for the table assembler.\<close>

definition short_archive :: archive where
  "short_archive =
     [(''xl/worksheets/sheet1.xml'',
       el ''worksheet'' [] None
         [el ''sheetData'' [] None
            [el ''row'' [] None [el ''c'' [(''r'', ''A1'')] None [el ''v'' [] (Some ''7'') []]],
             el ''row'' [] None [],
             el ''row'' [] None []]])]"

text \<open>A shared-string cell whose index 1 is outside a pool of one string.\<close>

definition unchecked_archive :: archive where
  "unchecked_archive =
     [(''xl/sharedStrings.xml'', el ''sst'' [] None [el ''si'' [] None [el ''t'' [] (Some ''only'') []]]),
      (''xl/worksheets/sheet1.xml'',
       el ''worksheet'' [] None
         [el ''sheetData'' [] None
            [el ''row'' [] None [], el ''row'' [] None [], el ''row'' [] None [],
             el ''row'' [] None
               [el ''c'' [(''r'', ''B4''), (''t'', ''s'')] None [el ''v'' [] (Some ''1'') []]]]])]"

text \<open>
  A shared-string cell without a reference attribute whose value text is no integer, in a
  workbook that has no shared-string table.
\<close>

definition skipped_cell :: element where
  "skipped_cell = el ''c'' [(''t'', ''s'')] None [el ''v'' [] (Some ''x'') []]"

definition skipped_archive :: archive where
  "skipped_archive =
     [(''xl/worksheets/sheet1.xml'',
       el ''worksheet'' [] None
         [el ''sheetData'' [] None
            [el ''row'' [] None [skipped_cell],
             el ''row'' [] None [], el ''row'' [] None [], el ''row'' [] None []]])]"

text \<open>
  Survey records of three respondents: one finished with valid answers, one finished with
  answers that are out of range or not numeric, one unfinished. With them, the long-format
  rows and the scores per course that the aggregation produces.
\<close>

definition example_questions :: questions where
  "example_questions =
     [(''ResponseId'', ''Response ID''), (''Finished'', ''Finished''),
      (''Q35_1'', ''Rank the core courses - Tax Law''), (''Q35_2'', ''Rank the core courses - Audit''),
      (''Q76_1'', ''Ethics'')]"

definition example_records :: "record_row list" where
  "example_records =
     [[(''ResponseId'', ''R_1''), (''Finished'', ''1''), (''Q35_1'', ''2''), (''Q35_2'', ''2''),
       (''Q76_1'', ''5'')],
      [(''ResponseId'', ''R_2''), (''Finished'', ''True''), (''Q35_1'', ''9''), (''Q35_2'', ''0''),
       (''Q76_1'', ''x'')],
      [(''ResponseId'', ''R_3''), (''Finished'', ''0''), (''Q35_1'', ''1''), (''Q35_2'', ''1''),
       (''Q76_1'', ''1'')]]"

definition example_long_rows :: "long_row list" where
  "example_long_rows =
     [\<lparr>response_id = ''R_1'', lr_course = ''Tax Law'', source_type = core_rank,
        response_value = 2, normalized_score = 175 / 2\<rparr>,
      \<lparr>response_id = ''R_1'', lr_course = ''Audit'', source_type = core_rank,
        response_value = 2, normalized_score = 175 / 2\<rparr>,
      \<lparr>response_id = ''R_1'', lr_course = ''Ethics'', source_type = elective_rating,
        response_value = 5, normalized_score = 100\<rparr>]"

definition example_scores :: course_scores where
  "example_scores = [(''Tax Law'', [175 / 2], []), (''Audit'', [175 / 2], []), (''Ethics'', [], [100])]"

text \<open>
  Three finished responses that rank one core course 2, 1 and 1: the scores 87.5, 100 and
  100, whose mean 575 / 6 is not a double.
\<close>

definition rounding_questions :: questions where
  "rounding_questions = [(''ResponseId'', ''Response ID''), (''Finished'', ''Finished''),
     (''Q35_1'', ''Rank the core courses - Tax Law'')]"

definition rounding_records :: "record_row list" where
  "rounding_records =
     [[(''ResponseId'', ''R_1''), (''Finished'', ''1''), (''Q35_1'', ''2'')],
      [(''ResponseId'', ''R_2''), (''Finished'', ''1''), (''Q35_1'', ''1'')],
      [(''ResponseId'', ''R_3''), (''Finished'', ''1''), (''Q35_1'', ''1'')]]"

definition rounding_long_rows :: "long_row list" where
  "rounding_long_rows =
     [\<lparr>response_id = ''R_1'', lr_course = ''Tax Law'', source_type = core_rank,
        response_value = 2, normalized_score = 175 / 2\<rparr>,
      \<lparr>response_id = ''R_2'', lr_course = ''Tax Law'', source_type = core_rank,
        response_value = 1, normalized_score = 100\<rparr>,
      \<lparr>response_id = ''R_3'', lr_course = ''Tax Law'', source_type = core_rank,
        response_value = 1, normalized_score = 100\<rparr>]"

definition rounding_scores :: course_scores where
  "rounding_scores = [(''Tax Law'', [175 / 2, 100, 100], [])]"

section \<open>The cell reference decoder is the bijective base-26 numbering\<close>

lemma col_acc_shift: "col_acc a xs = a * 26 ^ length xs + col_acc 0 xs"
proof (induction xs arbitrary: a)
  case Nil
  show ?case by simp
next
  case (Cons x xs)
  have "col_acc a (x # xs) = col_acc (a * 26 + (ord x - 64)) xs" by simp
  also have "\<dots> = (a * 26 + (ord x - 64)) * 26 ^ length xs + col_acc 0 xs"
    by (rule Cons.IH)
  finally have l: "col_acc a (x # xs) = (a * 26 + (ord x - 64)) * 26 ^ length xs + col_acc 0 xs" .
  have "col_acc 0 (x # xs) = col_acc (ord x - 64) xs" by simp
  also have "\<dots> = (ord x - 64) * 26 ^ length xs + col_acc 0 xs"
    by (rule Cons.IH)
  finally have r: "col_acc 0 (x # xs) = (ord x - 64) * 26 ^ length xs + col_acc 0 xs" .
  show ?case unfolding l r by (simp add: algebra_simps)
qed

lemma col_acc_Cons: "col_acc 0 (x # xs) = (ord x - 64) * 26 ^ length xs + col_acc 0 xs"
  using col_acc_shift [of "ord x - 64" xs] by simp

lemma col_acc_bounds:
  "list_all is_upper xs \<Longrightarrow>
     26 ^ length xs - 1 \<le> 25 * col_acc 0 xs \<and> 25 * col_acc 0 xs \<le> 26 ^ Suc (length xs) - 26"
proof (induction xs)
  case Nil
  show ?case by simp
next
  case (Cons x xs)
  define p :: int where "p = 26 ^ length xs"
  define d where "d = ord x - 64"
  have p: "0 < p" by (simp add: p_def)
  from Cons.prems have rest: "list_all is_upper xs" and "is_upper x" by simp_all
  then have d: "1 \<le> d" "d \<le> 26"
    by (simp_all add: is_upper_def d_def)
  from Cons.IH [OF rest] have ih: "p - 1 \<le> 25 * col_acc 0 xs" "25 * col_acc 0 xs \<le> 26 * p - 26"
    by (simp_all add: p_def)
  have lo: "p \<le> d * p" using d p by (simp add: mult_le_cancel_right1)
  have hi: "d * p \<le> 26 * p" using d p by (simp add: mult_right_mono)
  have v: "col_acc 0 (x # xs) = d * p + col_acc 0 xs"
    unfolding d_def p_def by (rule col_acc_Cons)
  have "26 * p - 1 \<le> 25 * col_acc 0 (x # xs)" unfolding v distrib_left using lo ih by linarith
  moreover have "25 * col_acc 0 (x # xs) \<le> 26 * (26 * p) - 26"
    unfolding v distrib_left using hi ih by linarith
  ultimately show ?case by (simp add: p_def)
qed

lemma col_acc_lex:
  "length xs = length ys \<Longrightarrow> list_all is_upper xs \<Longrightarrow> list_all is_upper ys \<Longrightarrow> xs < ys \<Longrightarrow>
     col_acc 0 xs < col_acc 0 ys"
proof (induction xs ys rule: list_induct2)
  case Nil
  then show ?case by simp
next
  case (Cons x xs y ys)
  define p :: int where "p = 26 ^ length xs"
  have p': "26 ^ length ys = p" using Cons.hyps by (simp add: p_def)
  from Cons.prems have ux: "list_all is_upper xs" and uy: "list_all is_upper ys" by simp_all
  have vx: "col_acc 0 (x # xs) = (ord x - 64) * p + col_acc 0 xs"
    unfolding p_def by (rule col_acc_Cons)
  have vy: "col_acc 0 (y # ys) = (ord y - 64) * p + col_acc 0 ys"
    unfolding p'[symmetric] by (rule col_acc_Cons)
  from Cons.prems(3) have "x < y \<or> (x = y \<and> xs < ys)" by simp
  then show ?case
  proof
    assume "x < y"
    then have "(of_char x :: nat) < of_char y" by (simp add: less_char_def)
    then have "int (of_char x) < int (of_char y)" by simp
    then have "ord x + 1 \<le> ord y"
      by (simp add: ord_def of_nat_of_char)
    then have "(ord x - 64 + 1) * p \<le> (ord y - 64) * p"
      by (intro mult_right_mono) (simp_all add: p_def)
    then have step: "(ord x - 64) * p + p \<le> (ord y - 64) * p" by (simp add: algebra_simps)
    from col_acc_bounds [OF ux] have "25 * col_acc 0 xs \<le> 26 * p - 26" by (simp add: p_def)
    moreover from col_acc_bounds [OF uy] have "p - 1 \<le> 25 * col_acc 0 ys" by (simp add: p')
    ultimately have "col_acc 0 xs < p + col_acc 0 ys" by linarith
    with step show ?thesis unfolding vx vy by linarith
  next
    assume "x = y \<and> xs < ys"
    with Cons.IH [OF ux uy] show ?thesis unfolding vx vy by simp
  qed
qed

lemma col_acc_length:
  assumes "length xs < length ys" "list_all is_upper xs" "list_all is_upper ys"
  shows "col_acc 0 xs < col_acc 0 ys"
proof -
  from assms(1) have "Suc (length xs) \<le> length ys" by simp
  then have "(26::int) ^ Suc (length xs) \<le> 26 ^ length ys"
    by (intro power_increasing) simp_all
  moreover from col_acc_bounds [OF assms(2)]
  have "25 * col_acc 0 xs \<le> 26 ^ Suc (length xs) - 26" by simp
  moreover from col_acc_bounds [OF assms(3)]
  have "26 ^ length ys - 1 \<le> 25 * col_acc 0 ys" by simp
  ultimately show ?thesis by linarith
qed

lemma col_to_index_nonneg: "is_col_ref r \<Longrightarrow> 0 \<le> col_to_index r"
proof -
  assume "is_col_ref r"
  then have u: "list_all is_upper r" and "1 \<le> length r"
    by (simp_all add: is_col_ref_def Suc_le_eq)
  from col_acc_bounds [OF u] have "26 ^ length r - 1 \<le> 25 * col_acc 0 r" by simp
  moreover have "(26::int) ^ 1 \<le> 26 ^ length r"
    using \<open>1 \<le> length r\<close> by (intro power_increasing) simp_all
  ultimately show "0 \<le> col_to_index r" by (simp add: col_to_index_def)
qed

text \<open>
  Claim C4. The decoder accumulates \<open>total * 26 + (ord char - 64)\<close> from the left and
  subtracts one at the end. It sends \<open>A\<close> to 0, \<open>Z\<close> to 25 and \<open>AA\<close> to 26; on every
  non-empty reference of uppercase letters its result is at least 0; and it is strictly
  increasing in the order that compares lengths first and then letters, so \<open>Z\<close> comes
  before \<open>AA\<close>.
\<close>

theorem col_to_index_shortlex:
  "col_to_index col_ref = foldl (\<lambda>total char. total * 26 + (ord char - ord CHR ''A'' + 1)) 0 col_ref - 1 \<and>
   col_to_index ''A'' = 0 \<and> col_to_index ''Z'' = 25 \<and> col_to_index ''AA'' = 26 \<and>
   (\<forall>r. is_col_ref r \<longrightarrow> 0 \<le> col_to_index r) \<and>
   (\<forall>r s. is_col_ref r \<and> is_col_ref s \<and> shortlex_less r s \<longrightarrow> col_to_index r < col_to_index s)"
proof (intro conjI allI impI)
  have "\<And>total char. total * 26 + (ord char - ord CHR ''A'' + 1) = total * 26 + (ord char - 64)"
    by (simp add: ord_def)
  then show "col_to_index col_ref =
      foldl (\<lambda>total char. total * 26 + (ord char - ord CHR ''A'' + 1)) 0 col_ref - 1"
    by (simp add: col_to_index_def)
  show "col_to_index ''A'' = 0" by (simp add: col_to_index_def ord_def)
  show "col_to_index ''Z'' = 25" by (simp add: col_to_index_def ord_def)
  show "col_to_index ''AA'' = 26" by (simp add: col_to_index_def ord_def)
next
  fix r assume "is_col_ref r"
  then show "0 \<le> col_to_index r" by (rule col_to_index_nonneg)
next
  fix r s assume "is_col_ref r \<and> is_col_ref s \<and> shortlex_less r s"
  then have ur: "list_all is_upper r" and us: "list_all is_upper s"
    and lt: "length r < length s \<or> (length r = length s \<and> r < s)"
    by (simp_all add: is_col_ref_def shortlex_less_def)
  from lt have "col_acc 0 r < col_acc 0 s"
    using col_acc_length [OF _ ur us] col_acc_lex [OF _ ur us] by blast
  then show "col_to_index r < col_to_index s" by (simp add: col_to_index_def)
qed

theorem col_to_index_shortlex_witness:
  "is_col_ref ''Z'' \<and> is_col_ref ''AA'' \<and> shortlex_less ''Z'' ''AA'' \<and>
   0 \<le> col_to_index ''Z'' \<and> col_to_index ''Z'' < col_to_index ''AA''"
proof -
  have h: "is_col_ref ''Z'' \<and> is_col_ref ''AA'' \<and> shortlex_less ''Z'' ''AA''"
    by (simp add: is_col_ref_def is_upper_def ord_def shortlex_less_def)
  moreover from h col_to_index_shortlex have "0 \<le> col_to_index ''Z''" by blast
  moreover from h col_to_index_shortlex have "col_to_index ''Z'' < col_to_index ''AA''" by blast
  ultimately show ?thesis by blast
qed

section \<open>Association lists as dictionaries\<close>

lemma fold_update_map_of:
  "map_of (fold upd_pair kvs al) = map_of al ++ map_of (rev kvs)"
proof (induction kvs arbitrary: al)
  case Nil
  show ?case by simp
next
  case (Cons kv kvs)
  obtain k v where kv: "kv = (k, v)" by (cases kv)
  have "map_of (fold upd_pair (kv # kvs) al) = map_of (AList.update k v al) ++ map_of (rev kvs)"
    by (simp add: kv Cons.IH)
  also have "\<dots> = map_of al ++ map_of (rev (kv # kvs))"
    by (rule ext) (simp add: kv update_conv' map_add_def split: option.splits)
  finally show ?case .
qed

lemma fold_update_keys:
  "fst ` set (fold upd_pair kvs al) = fst ` set al \<union> fst ` set kvs"
proof (induction kvs arbitrary: al)
  case Nil
  show ?case by simp
next
  case (Cons kv kvs)
  obtain k v where kv: "kv = (k, v)" by (cases kv)
  have "fst ` set (fold upd_pair (kv # kvs) al) = fst ` set (AList.update k v al) \<union> fst ` set kvs"
    by (simp add: kv Cons.IH)
  also have "\<dots> = fst ` set al \<union> fst ` set (kv # kvs)"
    unfolding dom_update by (auto simp: kv)
  finally show ?case .
qed

lemma fold_update_distinct:
  "distinct (map fst al) \<Longrightarrow> distinct (map fst (fold upd_pair kvs al))"
  by (induction kvs arbitrary: al) (auto simp: distinct_update)

lemma map_of_rev_last:
  "i < length kvs \<Longrightarrow> (\<forall>j. i < j \<and> j < length kvs \<longrightarrow> fst (kvs ! j) \<noteq> fst (kvs ! i)) \<Longrightarrow>
     map_of (rev kvs) (fst (kvs ! i)) = Some (snd (kvs ! i))"
proof (induction kvs rule: rev_induct)
  case Nil
  then show ?case by simp
next
  case (snoc kv kvs)
  show ?case
  proof (cases "i = length kvs")
    case True
    then show ?thesis by (cases kv) simp
  next
    case False
    with snoc.prems(1) have i: "i < length kvs" by simp
    have last: "fst kv \<noteq> fst (kvs ! i)"
      using snoc.prems(2) [rule_format, of "length kvs"] i by (simp add: nth_append)
    have "\<forall>j. i < j \<and> j < length kvs \<longrightarrow> fst (kvs ! j) \<noteq> fst (kvs ! i)"
    proof (intro allI impI)
      fix j assume j: "i < j \<and> j < length kvs"
      then show "fst (kvs ! j) \<noteq> fst (kvs ! i)"
        using snoc.prems(2) [rule_format, of j] i by (simp add: nth_append)
    qed
    from snoc.IH [OF i this] last i show ?thesis
      by (cases kv) (auto simp: nth_append)
  qed
qed

lemma schema_loop_eq:
  "schema_loop h q idxs (cols, qs) =
     (cols @ map (\<lambda>idx. dict_get h idx (''COL_'' @ str_int idx)) idxs,
      fold upd_pair (map (\<lambda>idx. (dict_get h idx (''COL_'' @ str_int idx), dict_get q idx [])) idxs) qs)"
  by (induction idxs arbitrary: cols qs) (simp_all add: Let_def)

lemma fold_max_Max: "fold max xs (x::int) = Max (set (x # xs))"
  by (rule Max.set_eq_fold [symmetric])

lemma py_max_spec:
  "rows \<noteq> [] \<Longrightarrow> py_max (map (\<lambda>row. max_default (map fst row) 0) rows) = Inr (spec_max_col rows)"
proof -
  assume "rows \<noteq> []"
  have eq: "max_default (map fst row) 0 = (if row = [] then 0 else Max (set (map fst row)))"
    for row :: raw_row
  proof (cases row)
    case Nil
    then show ?thesis by (simp add: max_default_def)
  next
    case (Cons kv kvs)
    then show ?thesis
      by (simp only: max_default_def list.case list.map fold_max_Max list.simps if_False)
  qed
  from \<open>rows \<noteq> []\<close> obtain r rs where rows: "rows = r # rs" by (cases rows) auto
  show ?thesis
    unfolding py_max_def spec_max_col_def eq rows
    by (simp only: list.map list.case fold_max_Max)
qed

lemma spec_max_col_nonneg:
  assumes "rows \<noteq> []" "\<forall>row\<in>set rows. \<forall>k\<in>set (map fst row). 0 \<le> k"
  shows "0 \<le> spec_max_col rows"
proof -
  from assms(1) obtain r where r: "r \<in> set rows" by (cases rows) auto
  let ?f = "\<lambda>row::raw_row. if row = [] then 0 else Max (set (map fst row))"
  have "0 \<le> ?f r"
  proof (cases "r = []")
    case True then show ?thesis by simp
  next
    case False
    then obtain kv where "kv \<in> set r" by (cases r) auto
    then have "fst kv \<le> Max (set (map fst r))" by simp
    moreover have "0 \<le> fst kv" using assms(2) r \<open>kv \<in> set r\<close> by auto
    ultimately show ?thesis using False by simp
  qed
  moreover have "?f r \<le> spec_max_col rows"
    unfolding spec_max_col_def using r by (intro Max_ge) auto
  ultimately show ?thesis by linarith
qed

lemma assemble_eq:
  assumes "4 \<le> length rows"
  shows "assemble rows =
     Inr (map (col_name_at (rows ! 0)) [0..spec_max_col rows],
          map (mk_record (map (col_name_at (rows ! 0)) [0..spec_max_col rows])) (drop 3 rows),
          fold upd_pair (map (\<lambda>idx. (col_name_at (rows ! 0) idx, dict_get (rows ! 1) idx []))
             [0..spec_max_col rows]) [])"
proof -
  from assms have ne: "rows \<noteq> []" by auto
  have nm: "dict_get (rows ! 0) idx (''COL_'' @ str_int idx) = col_name_at (rows ! 0) idx" for idx
    by (simp add: dict_get_def col_name_at_def split: option.splits)
  show ?thesis
    using assms unfolding assemble_def Let_def py_max_spec [OF ne] schema_loop_eq nm
    by simp
qed

lemma mk_record_eq:
  "mk_record columns row =
     fold upd_pair (map (\<lambda>(idx, c). (c, dict_get row (int idx) [])) (List.enumerate 0 columns)) []"
proof -
  have e: "(\<lambda>(idx, col_name). AList.update col_name (dict_get row (int idx) [])) =
        upd_pair \<circ> (\<lambda>(idx, c). (c, dict_get row (int idx) []))"
    by (rule ext) (simp add: split_beta)
  show ?thesis unfolding mk_record_def fold_map e ..
qed

lemma mk_record_keys: "fst ` set (mk_record columns row) = set columns"
proof -
  have "fst ` set (map (\<lambda>(idx, c). (c, dict_get row (int idx) [])) (List.enumerate 0 columns))
        = snd ` set (List.enumerate 0 columns)"
    by (force simp: split_beta)
  also have "\<dots> = set columns"
    by (simp add: enumerate_eq_zip flip: set_map)
  finally show ?thesis by (simp add: mk_record_eq fold_update_keys)
qed

lemma mk_record_lookup:
  assumes "i < length columns"
    and "\<forall>j. i < j \<and> j < length columns \<longrightarrow> columns ! j \<noteq> columns ! i"
  shows "map_of (mk_record columns row) (columns ! i) = Some (dict_get row (int i) [])"
proof -
  let ?kvs = "map (\<lambda>(idx, c). (c, dict_get row (int idx) [])) (List.enumerate 0 columns)"
  have len: "length ?kvs = length columns" by simp
  have nth: "?kvs ! j = (columns ! j, dict_get row (int j) [])" if "j < length columns" for j
    using that by (simp add: nth_enumerate_eq)
  have "map_of (rev ?kvs) (fst (?kvs ! i)) = Some (snd (?kvs ! i))"
  proof (rule map_of_rev_last)
    show "i < length ?kvs" using assms(1) by simp
    show "\<forall>j. i < j \<and> j < length ?kvs \<longrightarrow> fst (?kvs ! j) \<noteq> fst (?kvs ! i)"
      using assms by (simp add: nth_enumerate_eq)
  qed
  then show ?thesis
    by (simp add: mk_record_eq fold_update_map_of nth [OF assms(1)])
qed

lemma digit_val_digit_char: "d < 10 \<Longrightarrow> digit_val (digit_char d) = d"
proof -
  assume "d < 10"
  then have "d = 0 \<or> d = 1 \<or> d = 2 \<or> d = 3 \<or> d = 4 \<or> d = 5 \<or> d = 6 \<or> d = 7 \<or> d = 8 \<or> d = 9"
    by arith
  then show ?thesis
    by (elim disjE) (simp_all add: digit_val_def digit_char_def ord_def)
qed

lemma digits_val_snoc: "digits_val (ds @ [c]) = digits_val ds * 10 + digit_val c"
  by (simp add: digits_val_def)

lemma digits_val_str_nat: "digits_val (str_nat n) = n"
proof (induction n rule: str_nat.induct)
  case (1 n)
  show ?case
  proof (cases "n < 10")
    case True
    then show ?thesis
      by (subst str_nat.simps) (simp add: digits_val_def digit_val_digit_char)
  next
    case False
    have m: "n mod 10 < 10" by simp
    from False have "digits_val (str_nat n) = digits_val (str_nat (n div 10)) * 10 + digit_val (digit_char (n mod 10))"
      by (subst str_nat.simps) (simp add: digits_val_snoc)
    also have "\<dots> = n div 10 * 10 + n mod 10"
      using "1.IH" [OF False] by (simp add: digit_val_digit_char [OF m])
    finally show ?thesis by simp
  qed
qed

lemma col_name_decodes:
  "0 \<le> idx \<Longrightarrow> int (digits_val (drop 4 (''COL_'' @ str_int idx))) = idx"
  by (simp add: str_int_def digits_val_str_nat)

text \<open>
  Claim C1. For at least four raw rows with non-negative column indices the table
  assembler returns a column list, records and a question mapping. The column list has
  \<open>max_col + 1\<close> names, \<open>max_col\<close> being the largest column index of any row (0 for an
  empty row). The name at index \<open>i\<close> is row 0's value at \<open>i\<close>, or \<open>COL_\<close> followed by
  \<open>i\<close> in decimal when row 0 has nothing there, and the digits give \<open>i\<close> back. The keys
  of the question mapping are the column names, and a name maps to row 1's value at its
  index, the empty string when absent; a name that stands at several indices takes the
  last of them. There is one
  record per row from index 3 on, built from that row alone, so row 2 yields none; the
  keys of every record are the column names, an absent cell being the empty string. Five
  rows give two records.
\<close>

theorem table_assembler:
  assumes "4 \<le> length rows" and "\<forall>row\<in>set rows. \<forall>k\<in>set (map fst row). 0 \<le> k"
  shows "\<exists>columns records questions.
     assemble rows = Inr (columns, records, questions) \<and>
     int (length columns) = spec_max_col rows + 1 \<and>
     (\<forall>i<length columns. columns ! i =
        (case map_of (rows ! 0) (int i) of None \<Rightarrow> ''COL_'' @ str_int (int i) | Some v \<Rightarrow> v)) \<and>
     (\<forall>i<length columns. map_of (rows ! 0) (int i) = None \<longrightarrow>
        take 4 (columns ! i) = ''COL_'' \<and> digits_val (drop 4 (columns ! i)) = i) \<and>
     set (map fst questions) = set columns \<and>
     (\<forall>i<length columns. (\<forall>j. i < j \<and> j < length columns \<longrightarrow> columns ! j \<noteq> columns ! i) \<longrightarrow>
        map_of questions (columns ! i) = Some (dict_get (rows ! 1) (int i) [])) \<and>
     length records = length rows - 3 \<and>
     (\<forall>n<length records.
        records ! n = mk_record columns (rows ! (n + 3)) \<and>
        set (map fst (records ! n)) = set columns \<and>
        (\<forall>i<length columns. (\<forall>j. i < j \<and> j < length columns \<longrightarrow> columns ! j \<noteq> columns ! i) \<longrightarrow>
           map_of (records ! n) (columns ! i) = Some (dict_get (rows ! (n + 3)) (int i) []))) \<and>
     (length rows = 5 \<longrightarrow> length records = 2)"
proof -
  define mc where "mc = spec_max_col rows"
  define columns where "columns = map (col_name_at (rows ! 0)) [0..mc]"
  define kvs where "kvs = map (\<lambda>idx. (col_name_at (rows ! 0) idx, dict_get (rows ! 1) idx [])) [0..mc]"
  define questions where "questions = fold upd_pair kvs []"
  define records where "records = map (mk_record columns) (drop 3 rows)"
  from assms(1) have ne: "rows \<noteq> []" by auto
  have mc: "0 \<le> mc" unfolding mc_def by (rule spec_max_col_nonneg [OF ne assms(2)])
  have asm: "assemble rows = Inr (columns, records, questions)"
    unfolding assemble_eq [OF assms(1)] columns_def records_def questions_def kvs_def mc_def ..
  have len: "int (length columns) = mc + 1" using mc by (simp add: columns_def)
  have col: "columns ! i = col_name_at (rows ! 0) (int i)" if "i < length columns" for i
    using that len by (simp add: columns_def)
  have klen: "length kvs = length columns" by (simp add: kvs_def columns_def)
  have knth: "kvs ! i = (columns ! i, dict_get (rows ! 1) (int i) [])" if "i < length columns" for i
    using that len by (simp add: kvs_def columns_def)
  have qkeys: "set (map fst questions) = set columns"
  proof -
    have "fst ` set kvs = set columns"
      unfolding kvs_def columns_def by (force simp: image_iff)
    then show ?thesis by (simp add: questions_def fold_update_keys)
  qed
  have qlook: "map_of questions (columns ! i) = Some (dict_get (rows ! 1) (int i) [])"
    if i: "i < length columns" and l: "\<forall>j. i < j \<and> j < length columns \<longrightarrow> columns ! j \<noteq> columns ! i" for i
  proof -
    have "map_of (rev kvs) (fst (kvs ! i)) = Some (snd (kvs ! i))"
    proof (rule map_of_rev_last)
      show "i < length kvs" using i klen by simp
      show "\<forall>j. i < j \<and> j < length kvs \<longrightarrow> fst (kvs ! j) \<noteq> fst (kvs ! i)"
        using l i by (simp add: klen knth)
    qed
    then show ?thesis by (simp add: questions_def fold_update_map_of knth [OF i])
  qed
  have rlen: "length records = length rows - 3" by (simp add: records_def)
  have rnth: "records ! n = mk_record columns (rows ! (n + 3))" if "n < length records" for n
    using that by (simp add: records_def add.commute)
  show ?thesis
  proof (intro exI conjI allI impI)
    show "assemble rows = Inr (columns, records, questions)" by (rule asm)
    show "int (length columns) = spec_max_col rows + 1" using len by (simp add: mc_def)
    show "columns ! i = (case map_of (rows ! 0) (int i) of None \<Rightarrow> ''COL_'' @ str_int (int i) | Some v \<Rightarrow> v)"
      if "i < length columns" for i using col [OF that] by (simp add: col_name_at_def)
    show "take 4 (columns ! i) = ''COL_''"
      if "i < length columns" "map_of (rows ! 0) (int i) = None" for i
      using col [OF that(1)] that(2) by (simp add: col_name_at_def)
    show "digits_val (drop 4 (columns ! i)) = i"
      if "i < length columns" "map_of (rows ! 0) (int i) = None" for i
      using col [OF that(1)] that(2) col_name_decodes [of "int i"] by (simp add: col_name_at_def)
    show "set (map fst questions) = set columns" by (rule qkeys)
    show "map_of questions (columns ! i) = Some (dict_get (rows ! 1) (int i) [])"
      if "i < length columns" "\<forall>j. i < j \<and> j < length columns \<longrightarrow> columns ! j \<noteq> columns ! i" for i
      using that by (rule qlook)
    show "length records = length rows - 3" by (rule rlen)
    show "records ! n = mk_record columns (rows ! (n + 3))" if "n < length records" for n
      using that by (rule rnth)
    show "set (map fst (records ! n)) = set columns" if "n < length records" for n
      using rnth [OF that] mk_record_keys by simp
    show "map_of (records ! n) (columns ! i) = Some (dict_get (rows ! (n + 3)) (int i) [])"
      if "n < length records" "i < length columns"
        "\<forall>j. i < j \<and> j < length columns \<longrightarrow> columns ! j \<noteq> columns ! i" for n i
      using rnth [OF that(1)] mk_record_lookup [OF that(2,3)] by simp
    show "length records = 2" if "length rows = 5" using that rlen by simp
  qed
qed

theorem table_assembler_witness:
  "\<exists>columns records questions.
     assemble [[(0, ''Finished''), (2, ''Q35_1'')], [(0, ''Done?''), (2, ''Tax Law'')], [(5, ''sep'')],
          [(0, ''1''), (1, ''1'')], [(0, '''')]] = Inr (columns, records, questions) \<and>
     length columns = 6 \<and> length records = 2 \<and> columns ! 1 = ''COL_1''"
proof -
  let ?rows = "[[(0::int, ''Finished''), (2, ''Q35_1'')], [(0, ''Done?''), (2, ''Tax Law'')], [(5, ''sep'')],
          [(0, ''1''), (1, ''1'')], [(0, '''')]]"
  have 1: "4 \<le> length ?rows" by simp
  have 2: "\<forall>row\<in>set ?rows. \<forall>k\<in>set (map fst row). 0 \<le> k" by simp
  have m: "spec_max_col ?rows = 5" by (simp add: spec_max_col_def)
  have s: "str_int (int 1) = ''1''" by (simp add: str_int_def str_nat.simps digit_char_def)
  from table_assembler [OF 1 2] obtain columns records questions where
    a: "assemble ?rows = Inr (columns, records, questions)"
    and l: "int (length columns) = spec_max_col ?rows + 1"
    and c: "\<forall>i<length columns. columns ! i =
        (case map_of (?rows ! 0) (int i) of None \<Rightarrow> ''COL_'' @ str_int (int i) | Some v \<Rightarrow> v)"
    and r: "length ?rows = 5 \<longrightarrow> length records = 2"
    by blast
  from l m have len: "length columns = 6" by simp
  with c [rule_format, of 1] s have "columns ! 1 = ''COL_1''" by simp
  with a len r show ?thesis by simp
qed

section \<open>The worksheet row parser\<close>

lemma strip_strip: "strip (strip s) = strip s"
proof -
  define t where "t = dropWhile is_space s"
  define u where "u = rev (dropWhile is_space (rev t))"
  have su: "strip s = u" by (simp add: strip_def t_def u_def)
  have tu: "t = u @ rev (takeWhile is_space (rev t))"
  proof -
    have "rev (takeWhile is_space (rev t) @ dropWhile is_space (rev t)) =
          u @ rev (takeWhile is_space (rev t))"
      unfolding u_def by (simp only: rev_append)
    moreover have "rev (takeWhile is_space (rev t) @ dropWhile is_space (rev t)) = t" by simp
    ultimately show ?thesis by simp
  qed
  have front: "dropWhile is_space u = u"
  proof (cases "u = []")
    case True then show ?thesis by simp
  next
    case False
    then have "hd u = hd t" using tu by (metis hd_append2)
    moreover from False tu have "t \<noteq> []" by auto
    then have "\<not> is_space (hd t)" unfolding t_def by (rule hd_dropWhile)
    ultimately show ?thesis by (simp add: dropWhile_eq_self_iff)
  qed
  have rear: "dropWhile is_space (rev u) = rev u"
  proof (cases "rev u = []")
    case True then show ?thesis by simp
  next
    case False
    have ru: "rev u = dropWhile is_space (rev t)" by (simp add: u_def)
    with False have "\<not> is_space (hd (rev u))" by (metis hd_dropWhile)
    then show ?thesis by (simp add: dropWhile_eq_self_iff)
  qed
  have "strip u = u" by (simp add: strip_def front rear)
  then show ?thesis by (simp add: su)
qed

lemma rows_loop_Inr:
  "rows_loop pool rs acc = Inr ms \<longleftrightarrow>
     (\<exists>vs. ms = acc @ vs \<and> list_all2 (\<lambda>r v. parse_row pool r = Inr v) rs vs)"
proof (induction rs arbitrary: acc)
  case Nil
  show ?case by auto
next
  case (Cons r rs)
  show ?case
  proof (cases "parse_row pool r")
    case (Inl e)
    then show ?thesis by (auto simp: list_all2_Cons1)
  next
    case (Inr v)
    then show ?thesis by (auto simp: Cons.IH list_all2_Cons1)
  qed
qed

lemma rows_loop_Inl:
  "(\<exists>e. rows_loop pool rs acc = Inl e) \<longleftrightarrow> (\<exists>r\<in>set rs. \<exists>e. parse_row pool r = Inl e)"
proof (induction rs arbitrary: acc)
  case Nil
  show ?case by simp
next
  case (Cons r rs)
  show ?case by (cases "parse_row pool r") (auto simp: Cons.IH)
qed

lemma cell_step_Inl:
  "cell_step pool cell vals = Inl e \<longleftrightarrow> (cell_col cell \<noteq> None \<and> cell_value pool cell = Inl e)"
  by (auto simp: cell_step_def split: option.splits sum.splits)

lemma cells_loop_Inl:
  "(\<exists>e. cells_loop pool cells vals = Inl e) \<longleftrightarrow>
     (\<exists>cell\<in>set cells. cell_col cell \<noteq> None \<and> (\<exists>e. cell_value pool cell = Inl e))"
proof (induction cells arbitrary: vals)
  case Nil
  show ?case by simp
next
  case (Cons c cs)
  show ?case
  proof (cases "cell_step pool c vals")
    case (Inl e)
    then show ?thesis using cell_step_Inl [of pool c vals e] by auto
  next
    case (Inr v)
    then have "\<not> (cell_col c \<noteq> None \<and> (\<exists>e. cell_value pool c = Inl e))"
      by (auto simp: cell_step_def split: option.splits sum.splits)
    with Inr show ?thesis by (auto simp: Cons.IH)
  qed
qed

lemma cells_loop_lookup:
  "cells_loop pool cells vals = Inr m \<Longrightarrow>
     (filter (\<lambda>c. cell_col c = Some k) cells = [] \<longrightarrow> map_of m k = map_of vals k) \<and>
     (filter (\<lambda>c. cell_col c = Some k) cells \<noteq> [] \<longrightarrow>
        (\<exists>w. cell_value pool (last (filter (\<lambda>c. cell_col c = Some k) cells)) = Inr w \<and>
             map_of m k = Some (strip w)))"
proof (induction cells arbitrary: vals)
  case Nil
  then show ?case by simp
next
  case (Cons c cs)
  from Cons.prems obtain vals' where
    step: "cell_step pool c vals = Inr vals'" and rest: "cells_loop pool cs vals' = Inr m"
    by (auto split: sum.splits)
  note ih = Cons.IH [OF rest]
  show ?case
  proof (cases "filter (\<lambda>c. cell_col c = Some k) cs = []")
    case False
    with ih show ?thesis by simp
  next
    case True
    with ih have m: "map_of m k = map_of vals' k" by simp
    show ?thesis
    proof (cases "cell_col c = Some k")
      case yes: True
      with step obtain w where w: "cell_value pool c = Inr w"
        and v': "vals' = AList.update k (strip w) vals"
        by (auto simp: cell_step_def split: sum.splits)
      from yes True w v' m show ?thesis by (simp add: update_conv')
    next
      case no: False
      have "map_of vals' k = map_of vals k"
      proof (cases "cell_col c")
        case None
        with step show ?thesis by (simp add: cell_step_def)
      next
        case (Some k')
        with no have "k' \<noteq> k" by simp
        with step Some show ?thesis
          by (auto simp: cell_step_def update_conv' split: sum.splits)
      qed
      with no True m show ?thesis by simp
    qed
  qed
qed

lemma cell_col_nonneg: "cell_col cell = Some k \<Longrightarrow> 0 \<le> k"
proof -
  assume a: "cell_col cell = Some k"
  define m where "m = takeWhile is_upper (dict_get (attrib cell) ''r'' [])"
  from a have ne: "m \<noteq> []" and k: "k = col_to_index m"
    by (auto simp: cell_col_def Let_def m_def split: if_splits)
  have "list_all is_upper m"
    unfolding m_def list_all_iff by (auto dest: set_takeWhileD)
  with ne have "is_col_ref m" by (simp add: is_col_ref_def)
  then show ?thesis unfolding k by (rule col_to_index_nonneg)
qed

lemma cells_loop_keys:
  "cells_loop pool cells vals = Inr m \<Longrightarrow> \<forall>k\<in>set (map fst vals). 0 \<le> k \<Longrightarrow>
     \<forall>k\<in>set (map fst m). 0 \<le> k"
proof (induction cells arbitrary: vals)
  case Nil
  then show ?case by simp
next
  case (Cons c cs)
  from Cons.prems(1) obtain vals' where
    step: "cell_step pool c vals = Inr vals'" and rest: "cells_loop pool cs vals' = Inr m"
    by (auto split: sum.splits)
  have "\<forall>k\<in>set (map fst vals'). 0 \<le> k"
  proof (cases "cell_col c")
    case None
    with step Cons.prems(2) show ?thesis by (simp add: cell_step_def)
  next
    case (Some k)
    with step obtain w where "vals' = AList.update k (strip w) vals"
      by (auto simp: cell_step_def split: sum.splits)
    then have "fst ` set vals' = {k} \<union> fst ` set vals" by (simp add: dom_update)
    with cell_col_nonneg [OF Some] Cons.prems(2) show ?thesis by auto
  qed
  with Cons.IH [OF rest] show ?case by blast
qed

lemma parse_rows_keys:
  assumes "parse_rows pool sheet = Inr ms"
  shows "\<forall>row\<in>set ms. \<forall>k\<in>set (map fst row). 0 \<le> k"
proof -
  from assms obtain vs where "ms = [] @ vs"
    and all: "list_all2 (\<lambda>r v. parse_row pool r = Inr v) (sheet_rows sheet) vs"
    unfolding parse_rows_def rows_loop_Inr by blast
  then have ms: "ms = vs" by simp
  show ?thesis
  proof
    fix row assume "row \<in> set ms"
    with ms all obtain r where "parse_row pool r = Inr row"
      by (auto simp: list_all2_conv_all_nth in_set_conv_nth)
    then show "\<forall>k\<in>set (map fst row). 0 \<le> k"
      unfolding parse_row_def by (rule cells_loop_keys) simp
  qed
qed

lemma ex_pool: "load_shared_strings example_archive = [''Finished'', ''Tax Law'']"
  by (simp add: load_shared_strings_def example_archive_def example_strings_def el_def
      findall_child_def findall_desc_def si_text_def text_or_empty_def ns_def)

lemmas eval_defs = parse_rows_def sheet_rows_def parse_row_def cell_step_def cell_col_def cell_value_def
      findall_child_def findall_desc_def find_first_def text_or_empty_def dict_get_def
      col_to_index_def is_upper_def ord_def strip_def is_space_def py_int_def int_literal_def int_strip_def is_int_space_def
      is_digit_def digit_val_def py_index_def Let_def

lemma ex_rows: "parse_rows [''Finished'', ''Tax Law''] example_sheet =
   Inr [[(0, ''Finished''), (1, ''Q35_1'')], [(0, ''Done?''), (1, ''Tax Law'')], [],
        [(0, ''1''), (1, ''1'')], [(0, '''')]]"
  by (simp add: example_sheet_def el_def ns_def eval_defs)

lemma cell_col_None: "cell_col cell = None \<longleftrightarrow> takeWhile is_upper (dict_get (attrib cell) ''r'' []) = []"
  by (simp add: cell_col_def Let_def)

lemma cell_value_inline:
  "map_of (attrib cell) ''t'' = Some ''inlineStr'' \<Longrightarrow>
     cell_value pool cell =
       Inr (case find_first (concat (map (findall_child ''t'') (findall_child ''is'' cell))) of
              None \<Rightarrow> [] | Some node \<Rightarrow> text_or_empty node)"
  by (simp add: cell_value_def split: option.splits)

lemma cell_value_shared:
  "map_of (attrib cell) ''t'' = Some ''s'' \<Longrightarrow> find_first (findall_child ''v'' cell) = Some node \<Longrightarrow>
     text_of node = Some raw \<Longrightarrow>
     cell_value pool cell = (case py_int raw of None \<Rightarrow> Inl invalid_literal | Some i \<Rightarrow> py_index pool i)"
  by (simp add: cell_value_def)

lemma cell_value_raw:
  "map_of (attrib cell) ''t'' \<noteq> Some ''inlineStr'' \<Longrightarrow> map_of (attrib cell) ''t'' \<noteq> Some ''s'' \<Longrightarrow>
     find_first (findall_child ''v'' cell) = Some node \<Longrightarrow> text_of node = Some raw \<Longrightarrow>
     cell_value pool cell = Inr raw"
  by (simp add: cell_value_def)

lemma cell_value_missing:
  "map_of (attrib cell) ''t'' \<noteq> Some ''inlineStr'' \<Longrightarrow> find_first (findall_child ''v'' cell) = None \<Longrightarrow>
     cell_value pool cell = Inr []"
  by (simp add: cell_value_def)

lemma parse_rows_nth:
  assumes "parse_rows pool sheet = Inr ms"
  shows "length ms = length (sheet_rows sheet)"
    and "n < length ms \<Longrightarrow> parse_row pool (sheet_rows sheet ! n) = Inr (ms ! n)"
proof -
  from assms have all: "list_all2 (\<lambda>r v. parse_row pool r = Inr v) (sheet_rows sheet) ms"
    unfolding parse_rows_def rows_loop_Inr by simp
  then show "length ms = length (sheet_rows sheet)" by (simp add: list_all2_lengthD)
  assume "n < length ms"
  with all show "parse_row pool (sheet_rows sheet ! n) = Inr (ms ! n)"
    by (simp add: list_all2_conv_all_nth)
qed

lemma parse_row_lookup:
  assumes "parse_row pool row = Inr m"
  shows "cells_at row k = [] \<Longrightarrow> map_of m k = None"
    and "cells_at row k \<noteq> [] \<Longrightarrow>
           \<exists>w. cell_value pool (last (cells_at row k)) = Inr w \<and> map_of m k = Some (strip w)"
  using cells_loop_lookup [OF assms [unfolded parse_row_def], of k]
  by (simp_all add: cells_at_def)

lemma parse_row_trimmed:
  assumes "parse_row pool row = Inr m" "map_of m k = Some v"
  shows "strip v = v"
proof (cases "cells_at row k = []")
  case True
  with parse_row_lookup(1) [OF assms(1)] assms(2) show ?thesis by simp
next
  case False
  from parse_row_lookup(2) [OF assms(1) False] assms(2) obtain w where "v = strip w" by auto
  then show ?thesis by (simp add: strip_strip)
qed

lemma doc_order_Cons: "doc_order (e # es) = iter e @ doc_order es"
  by (simp add: doc_order_def)

lemma iter_children: "iter e = e # doc_order (children e)"
  by (cases e) (simp add: doc_order_def)

lemma rows_below_Cons: "rows_below (e # es) = rows_below [e] @ rows_below es"
  by (simp add: rows_below_def doc_order_def)

lemma not_nested_Cons: "not_nested (e # es) \<longleftrightarrow> not_nested [e] \<and> not_nested es"
  by (auto simp: not_nested_def doc_order_def)

lemma subseq_children: "subseq es (doc_order es)"
proof (induction es)
  case Nil
  show ?case by (simp add: doc_order_def)
next
  case (Cons e es)
  have "subseq es (doc_order (children e) @ doc_order es)"
    using Cons.IH by (rule list_emb_append2)
  then show ?case by (simp add: doc_order_Cons iter_children)
qed

lemma rows_below_forest:
  assumes "\<And>e. e \<in> set es \<Longrightarrow> not_nested [e] \<Longrightarrow> subseq (rows_below [e]) (iter e)"
    and "not_nested es"
  shows "subseq (rows_below es) (doc_order es)"
  using assms
proof (induction es)
  case Nil
  show ?case by (simp add: rows_below_def doc_order_def)
next
  case (Cons e es)
  from Cons.prems(2) have 1: "not_nested [e]" and 2: "not_nested es"
    by (simp_all add: not_nested_Cons [of e es])
  have a: "subseq (rows_below [e]) (iter e)" using Cons.prems(1) 1 by simp
  have b: "subseq (rows_below es) (doc_order es)" using Cons.IH Cons.prems(1) 2 by simp
  show ?case
    unfolding rows_below_Cons [of e es] doc_order_Cons using a b by (rule list_emb_append_mono)
qed

lemma rows_below_element: "not_nested [e] \<Longrightarrow> subseq (rows_below [e]) (iter e)"
proof (induction e)
  case (Element t a x cs)
  let ?e = "Element t a x cs"
  show ?case
  proof (cases "t = ns ''sheetData''")
    case True
    with Element.prems have "findall_desc ''sheetData'' ?e = []"
      by (simp add: not_nested_def doc_order_def)
    then have none: "filter (\<lambda>e. tag e = ns ''sheetData'') (doc_order cs) = []"
      by (simp add: findall_desc_def doc_order_def)
    have "rows_below [?e] = findall_child ''row'' ?e"
      using True none by (simp add: rows_below_def doc_order_def)
    also have "\<dots> = filter (\<lambda>e. tag e = ns ''row'') cs" by (simp add: findall_child_def)
    finally have r: "rows_below [?e] = filter (\<lambda>e. tag e = ns ''row'') cs" .
    have "subseq (filter (\<lambda>e. tag e = ns ''row'') cs) cs" by simp
    also have "subseq cs (doc_order cs)" by (rule subseq_children)
    finally have "subseq (rows_below [?e]) (doc_order cs)" unfolding r .
    then have "subseq (rows_below [?e]) (?e # doc_order cs)" by (rule list_emb_Cons)
    then show ?thesis by (simp add: doc_order_def)
  next
    case False
    then have r: "rows_below [?e] = rows_below cs"
      by (simp add: rows_below_def doc_order_def)
    from False Element.prems have nn: "not_nested cs"
      by (simp add: not_nested_def doc_order_def)
    have "subseq (rows_below cs) (doc_order cs)"
      using Element.IH nn by (rule rows_below_forest)
    then have "subseq (rows_below cs) (?e # doc_order cs)" by (rule list_emb_Cons)
    then show ?thesis unfolding r by (simp add: doc_order_def)
  qed
qed

lemma sheet_rows_document_order:
  assumes "\<forall>sd\<in>set (findall_desc ''sheetData'' sheet). findall_desc ''sheetData'' sd = []"
  shows "subseq (sheet_rows sheet) (doc_order (children sheet))"
proof -
  have "not_nested (children sheet)"
    using assms by (simp add: not_nested_def findall_desc_def doc_order_def)
  then have "subseq (rows_below (children sheet)) (doc_order (children sheet))"
    by (rule rows_below_forest [rotated]) (rule rows_below_element)
  then show ?thesis by (simp add: sheet_rows_def rows_below_def findall_desc_def doc_order_def)
qed

lemma cell_col_Some:
  "cell_col cell = Some k \<longleftrightarrow>
     takeWhile is_upper (dict_get (attrib cell) ''r'' []) \<noteq> [] \<and>
     k = col_to_index (takeWhile is_upper (dict_get (attrib cell) ''r'' []))"
  by (auto simp: cell_col_def Let_def)

lemma strip_parts:
  "\<exists>pre post. w = pre @ strip w @ post \<and> list_all is_space pre \<and> list_all is_space post"
proof -
  define t where "t = dropWhile is_space w"
  have w: "w = takeWhile is_space w @ t" by (simp add: t_def)
  have "rev (takeWhile is_space (rev t) @ dropWhile is_space (rev t)) =
        strip w @ rev (takeWhile is_space (rev t))"
    unfolding strip_def t_def by (simp only: rev_append)
  moreover have "rev (takeWhile is_space (rev t) @ dropWhile is_space (rev t)) = t" by simp
  ultimately have t: "t = strip w @ rev (takeWhile is_space (rev t))" by simp
  have a: "list_all is_space (takeWhile is_space w)"
    unfolding list_all_iff by (auto dest: set_takeWhileD)
  have b: "list_all is_space (rev (takeWhile is_space (rev t)))"
    unfolding list_all_iff by (auto dest: set_takeWhileD)
  from w t have "w = takeWhile is_space w @ strip w @ rev (takeWhile is_space (rev t))" by simp
  with a b show ?thesis by blast
qed

lemma strip_ends:
  "strip w = [] \<or> (\<not> is_space (hd (strip w)) \<and> \<not> is_space (last (strip w)))"
proof (cases "strip w = []")
  case True
  then show ?thesis by simp
next
  case False
  have "strip (strip w) = strip w" by (rule strip_strip)
  define u where "u = strip w"
  have uu: "rev (dropWhile is_space (rev (dropWhile is_space u))) = u"
    using strip_strip [of w] by (simp add: strip_def u_def)
  from False have ne: "u \<noteq> []" by (simp add: u_def)
  have len: "length (dropWhile is_space u) = length u"
  proof -
    have "length u = length (dropWhile is_space (rev (dropWhile is_space u)))"
      using uu by (metis length_rev)
    also have "\<dots> \<le> length (rev (dropWhile is_space u))" by (rule length_dropWhile_le)
    finally have "length u \<le> length (dropWhile is_space u)" by simp
    moreover have "length (dropWhile is_space u) \<le> length u" by (rule length_dropWhile_le)
    ultimately show ?thesis by simp
  qed
  have d1: "dropWhile is_space u = u"
  proof -
    have "u = takeWhile is_space u @ dropWhile is_space u" by simp
    then have "length u = length (takeWhile is_space u) + length (dropWhile is_space u)"
      by (metis length_append)
    with len have "takeWhile is_space u = []" by simp
    then show ?thesis by (metis append_Nil takeWhile_dropWhile_id)
  qed
  with ne have h: "\<not> is_space (hd u)" by (simp add: dropWhile_eq_self_iff)
  from uu d1 have "dropWhile is_space (rev u) = rev u" by (metis rev_rev_ident)
  with ne have "\<not> is_space (hd (rev u))" by (simp add: dropWhile_eq_self_iff)
  with ne have l: "\<not> is_space (last u)" by (simp add: hd_rev)
  from h l show ?thesis by (simp add: u_def)
qed

lemma wide_rows:
  "parse_rows [''zero'', ''  last  ''] wide_sheet = Inr [[(26, ''again''), (1, ''second''), (701, ''last'')]]"
  by (simp add: wide_sheet_def el_def ns_def eval_defs)

text \<open>
  Claim C2. When the row parser returns, it returns one mapping per row element, in the
  order \<^verbatim>\<open>findall\<close> lists the rows: for a worksheet with a single \<open>sheetData\<close> element
  these are its \<open>row\<close> children, and whenever no \<open>sheetData\<close> element lies inside another
  the rows come in document order. In the mapping of a row, a column that no cell of
  the row decodes to is absent, and any other column holds the stripped
  value of the last cell that decodes to it; every stored value is its own strip; a row
  without cells gives the empty mapping. Stripping takes whitespace, and nothing else,
  from both ends, and what is left neither starts nor ends with whitespace. For a cell:
  it is skipped exactly when its reference has no leading uppercase letter, and otherwise
  it is stored at the column that the decoder gives for the uppercase letters at the
  start of its reference; an inline-string cell takes the text of
  its inline text node; a shared-string cell whose value text is an integer within the
  pool takes that pool entry; a cell of any other type takes its value text as it is;
  and a cell without a value node takes the empty string.
\<close>

theorem row_parser:
  assumes "parse_rows pool sheet = Inr ms"
  shows "length ms = length (sheet_rows sheet) \<and>
    (\<forall>sd. findall_desc ''sheetData'' sheet = [sd] \<longrightarrow>
       sheet_rows sheet = filter (\<lambda>e. tag e = ns ''row'') (children sd)) \<and>
    ((\<forall>sd\<in>set (findall_desc ''sheetData'' sheet). findall_desc ''sheetData'' sd = []) \<longrightarrow>
       subseq (sheet_rows sheet) (doc_order (children sheet))) \<and>
    (\<forall>n<length ms.
       parse_row pool (sheet_rows sheet ! n) = Inr (ms ! n) \<and>
       (\<forall>k. (cells_at (sheet_rows sheet ! n) k = [] \<longrightarrow> map_of (ms ! n) k = None) \<and>
            (cells_at (sheet_rows sheet ! n) k \<noteq> [] \<longrightarrow>
               (\<exists>w. cell_value pool (last (cells_at (sheet_rows sheet ! n) k)) = Inr w \<and>
                    map_of (ms ! n) k = Some (strip w)))) \<and>
       (\<forall>k v. map_of (ms ! n) k = Some v \<longrightarrow>
          strip v = v \<and> (v = [] \<or> (\<not> is_space (hd v) \<and> \<not> is_space (last v)))) \<and>
       (findall_child ''c'' (sheet_rows sheet ! n) = [] \<longrightarrow> ms ! n = [])) \<and>
    (\<forall>w. (\<exists>pre post. w = pre @ strip w @ post \<and> list_all is_space pre \<and> list_all is_space post) \<and>
         (strip w = [] \<or> (\<not> is_space (hd (strip w)) \<and> \<not> is_space (last (strip w))))) \<and>
    (\<forall>cell.
       (cell_col cell = None \<longleftrightarrow> takeWhile is_upper (dict_get (attrib cell) ''r'' []) = []) \<and>
       (\<forall>k. cell_col cell = Some k \<longleftrightarrow>
          takeWhile is_upper (dict_get (attrib cell) ''r'' []) \<noteq> [] \<and>
          k = col_to_index (takeWhile is_upper (dict_get (attrib cell) ''r'' []))) \<and>
       (cell_col cell = None \<longrightarrow> (\<forall>vals. cell_step pool cell vals = Inr vals)) \<and>
       (\<forall>k w vals. cell_col cell = Some k \<and> cell_value pool cell = Inr w \<longrightarrow>
          cell_step pool cell vals = Inr (AList.update k (strip w) vals)) \<and>
       (map_of (attrib cell) ''t'' = Some ''inlineStr'' \<longrightarrow>
          cell_value pool cell =
            Inr (case find_first (concat (map (findall_child ''t'') (findall_child ''is'' cell))) of
                   None \<Rightarrow> [] | Some node \<Rightarrow> text_or_empty node)) \<and>
       (\<forall>node raw i. map_of (attrib cell) ''t'' = Some ''s'' \<and>
          find_first (findall_child ''v'' cell) = Some node \<and> text_of node = Some raw \<and>
          py_int raw = Some i \<and> 0 \<le> i \<and> i < int (length pool) \<longrightarrow>
          cell_value pool cell = Inr (pool ! nat i)) \<and>
       (\<forall>node raw. map_of (attrib cell) ''t'' \<noteq> Some ''inlineStr'' \<and>
          map_of (attrib cell) ''t'' \<noteq> Some ''s'' \<and>
          find_first (findall_child ''v'' cell) = Some node \<and> text_of node = Some raw \<longrightarrow>
          cell_value pool cell = Inr raw) \<and>
       (map_of (attrib cell) ''t'' \<noteq> Some ''inlineStr'' \<and>
          find_first (findall_child ''v'' cell) = None \<longrightarrow> cell_value pool cell = Inr []))"
proof (intro conjI allI impI)
  show "length ms = length (sheet_rows sheet)" by (rule parse_rows_nth(1) [OF assms])
next
  fix sd assume "findall_desc ''sheetData'' sheet = [sd]"
  then show "sheet_rows sheet = filter (\<lambda>e. tag e = ns ''row'') (children sd)"
    by (simp add: sheet_rows_def findall_child_def)
next
  assume "\<forall>sd\<in>set (findall_desc ''sheetData'' sheet). findall_desc ''sheetData'' sd = []"
  then show "subseq (sheet_rows sheet) (doc_order (children sheet))"
    by (rule sheet_rows_document_order)
next
  fix n assume n: "n < length ms"
  note pr = parse_rows_nth(2) [OF assms n]
  show "parse_row pool (sheet_rows sheet ! n) = Inr (ms ! n)" by (rule pr)
  show "map_of (ms ! n) k = None" if "cells_at (sheet_rows sheet ! n) k = []" for k
    using that by (rule parse_row_lookup(1) [OF pr])
  show "\<exists>w. cell_value pool (last (cells_at (sheet_rows sheet ! n) k)) = Inr w \<and>
            map_of (ms ! n) k = Some (strip w)" if "cells_at (sheet_rows sheet ! n) k \<noteq> []" for k
    using that by (rule parse_row_lookup(2) [OF pr])
  show "strip v = v" if "map_of (ms ! n) k = Some v" for k v
    using pr that by (rule parse_row_trimmed)
  show "v = [] \<or> (\<not> is_space (hd v) \<and> \<not> is_space (last v))" if "map_of (ms ! n) k = Some v" for k v
    using parse_row_trimmed [OF pr that] strip_ends [of v] by simp
  show "ms ! n = []" if "findall_child ''c'' (sheet_rows sheet ! n) = []"
    using pr that by (simp add: parse_row_def)
next
  fix w
  show "\<exists>pre post. w = pre @ strip w @ post \<and> list_all is_space pre \<and> list_all is_space post"
    by (rule strip_parts)
  show "strip w = [] \<or> (\<not> is_space (hd (strip w)) \<and> \<not> is_space (last (strip w)))"
    by (rule strip_ends)
next
  fix cell
  show "cell_col cell = None \<longleftrightarrow> takeWhile is_upper (dict_get (attrib cell) ''r'' []) = []"
    by (rule cell_col_None)
  show "cell_col cell = Some k \<longleftrightarrow>
          takeWhile is_upper (dict_get (attrib cell) ''r'' []) \<noteq> [] \<and>
          k = col_to_index (takeWhile is_upper (dict_get (attrib cell) ''r'' []))" for k
    by (rule cell_col_Some)
  show "cell_step pool cell vals = Inr vals" if "cell_col cell = None" for vals
    using that by (simp add: cell_step_def)
  show "cell_step pool cell vals = Inr (AList.update k (strip w) vals)"
    if "cell_col cell = Some k \<and> cell_value pool cell = Inr w" for k w vals
    using that by (simp add: cell_step_def)
  show "cell_value pool cell =
      Inr (case find_first (concat (map (findall_child ''t'') (findall_child ''is'' cell))) of
             None \<Rightarrow> [] | Some node \<Rightarrow> text_or_empty node)"
    if "map_of (attrib cell) ''t'' = Some ''inlineStr''"
    using that by (rule cell_value_inline)
  show "cell_value pool cell = Inr (pool ! nat i)"
    if "map_of (attrib cell) ''t'' = Some ''s'' \<and>
        find_first (findall_child ''v'' cell) = Some node \<and> text_of node = Some raw \<and>
        py_int raw = Some i \<and> 0 \<le> i \<and> i < int (length pool)" for node raw i
    using that cell_value_shared [of cell node raw pool] by (simp add: py_index_def)
  show "cell_value pool cell = Inr raw"
    if "map_of (attrib cell) ''t'' \<noteq> Some ''inlineStr'' \<and>
        map_of (attrib cell) ''t'' \<noteq> Some ''s'' \<and>
        find_first (findall_child ''v'' cell) = Some node \<and> text_of node = Some raw" for node raw
    using that cell_value_raw by blast
  show "cell_value pool cell = Inr []"
    if "map_of (attrib cell) ''t'' \<noteq> Some ''inlineStr'' \<and>
        find_first (findall_child ''v'' cell) = None"
    using that cell_value_missing by blast
qed

theorem row_parser_witness:
  "parse_rows [''zero'', ''  last  ''] wide_sheet =
     Inr [[(26, ''again''), (1, ''second''), (701, ''last'')]] \<and>
   length (sheet_rows wide_sheet) = 1 \<and>
   cell_col (el ''c'' [(''r'', ''AA7'')] None [el ''v'' [] (Some ''again'') []]) = Some 26 \<and>
   cell_col (el ''c'' [(''r'', ''ZZ7''), (''t'', ''s'')] None [el ''v'' [] (Some ''-1'') []]) = Some 701 \<and>
   cell_col (el ''c'' [(''r'', ''7'')] None [el ''v'' [] (Some ''no column'') []]) = None"
proof -
  note t = row_parser [OF wide_rows]
  from t have "length (sheet_rows wide_sheet) = 1" by simp
  moreover from t
  have "cell_col (el ''c'' [(''r'', ''AA7'')] None [el ''v'' [] (Some ''again'') []]) = Some 26 \<longleftrightarrow>
     takeWhile is_upper (dict_get (attrib (el ''c'' [(''r'', ''AA7'')] None [el ''v'' [] (Some ''again'') []])) ''r'' []) \<noteq> [] \<and>
     26 = col_to_index (takeWhile is_upper (dict_get (attrib (el ''c'' [(''r'', ''AA7'')] None [el ''v'' [] (Some ''again'') []])) ''r'' []))"
    by blast
  then have "cell_col (el ''c'' [(''r'', ''AA7'')] None [el ''v'' [] (Some ''again'') []]) = Some 26"
    by (simp add: el_def dict_get_def is_upper_def ord_def col_to_index_def)
  moreover from t
  have "cell_col (el ''c'' [(''r'', ''ZZ7''), (''t'', ''s'')] None [el ''v'' [] (Some ''-1'') []]) = Some 701 \<longleftrightarrow>
     takeWhile is_upper (dict_get (attrib (el ''c'' [(''r'', ''ZZ7''), (''t'', ''s'')] None [el ''v'' [] (Some ''-1'') []])) ''r'' []) \<noteq> [] \<and>
     701 = col_to_index (takeWhile is_upper (dict_get (attrib (el ''c'' [(''r'', ''ZZ7''), (''t'', ''s'')] None [el ''v'' [] (Some ''-1'') []])) ''r'' []))"
    by blast
  then have "cell_col (el ''c'' [(''r'', ''ZZ7''), (''t'', ''s'')] None [el ''v'' [] (Some ''-1'') []]) = Some 701"
    by (simp add: el_def dict_get_def is_upper_def ord_def col_to_index_def)
  moreover from t
  have "cell_col (el ''c'' [(''r'', ''7'')] None [el ''v'' [] (Some ''no column'') []]) = None \<longleftrightarrow>
     takeWhile is_upper (dict_get (attrib (el ''c'' [(''r'', ''7'')] None [el ''v'' [] (Some ''no column'') []])) ''r'' []) = []"
    by blast
  then have "cell_col (el ''c'' [(''r'', ''7'')] None [el ''v'' [] (Some ''no column'') []]) = None"
    by (simp add: el_def dict_get_def is_upper_def ord_def)
  ultimately show ?thesis using wide_rows by simp
qed

section \<open>The shared-string pool and the structural check\<close>

text \<open>
  Claim C3. When the archive has a shared-strings entry with \<open>N\<close> \<open>si\<close> items, the pool
  has \<open>N\<close> entries; entry \<open>i\<close> is the concatenation of the texts of all \<open>t\<close> elements
  below item \<open>i\<close>, whatever lies between; and the value of a shared-string cell whose
  value text is an integer \<open>i\<close> with \<open>0 \<le> i \<le> N - 1\<close> is that concatenation for item
  \<open>i\<close>. This is the value before the row parser strips it for storage.
\<close>

theorem shared_string_pool_roundtrip:
  assumes "map_of zf ''xl/sharedStrings.xml'' = Some shared_root"
  shows "length (load_shared_strings zf) = length (findall_child ''si'' shared_root) \<and>
    (\<forall>i<length (findall_child ''si'' shared_root).
       load_shared_strings zf ! i =
         concat (map text_or_empty (findall_desc ''t'' (findall_child ''si'' shared_root ! i)))) \<and>
    (\<forall>cell node raw i.
       map_of (attrib cell) ''t'' = Some ''s'' \<and>
       find_first (findall_child ''v'' cell) = Some node \<and> text_of node = Some raw \<and>
       py_int raw = Some i \<and> 0 \<le> i \<and> i \<le> int (length (findall_child ''si'' shared_root)) - 1 \<longrightarrow>
       cell_value (load_shared_strings zf) cell =
         Inr (concat (map text_or_empty
                (findall_desc ''t'' (findall_child ''si'' shared_root ! nat i)))))"
proof -
  have pool: "load_shared_strings zf = map si_text (findall_child ''si'' shared_root)"
    using assms by (simp add: load_shared_strings_def)
  show ?thesis
  proof (intro conjI allI impI)
    show "length (load_shared_strings zf) = length (findall_child ''si'' shared_root)"
      by (simp add: pool)
    show "load_shared_strings zf ! i =
        concat (map text_or_empty (findall_desc ''t'' (findall_child ''si'' shared_root ! i)))"
      if "i < length (findall_child ''si'' shared_root)" for i
      using that by (simp add: pool si_text_def)
    show "cell_value (load_shared_strings zf) cell =
        Inr (concat (map text_or_empty (findall_desc ''t'' (findall_child ''si'' shared_root ! nat i))))"
      if "map_of (attrib cell) ''t'' = Some ''s'' \<and>
          find_first (findall_child ''v'' cell) = Some node \<and> text_of node = Some raw \<and>
          py_int raw = Some i \<and> 0 \<le> i \<and> i \<le> int (length (findall_child ''si'' shared_root)) - 1"
      for cell node raw i
    proof -
      from that have "nat i < length (findall_child ''si'' shared_root)" by auto
      with that cell_value_shared [of cell node raw "load_shared_strings zf"] show ?thesis
        by (simp add: py_index_def pool si_text_def)
    qed
  qed
qed

theorem shared_string_pool_roundtrip_witness:
  "map_of example_archive ''xl/sharedStrings.xml'' = Some example_strings \<and>
   load_shared_strings example_archive = [''Finished'', ''Tax Law''] \<and>
   length (findall_child ''si'' example_strings) = 2 \<and>
   cell_value (load_shared_strings example_archive)
     (el ''c'' [(''r'', ''B2''), (''t'', ''s'')] None [el ''v'' [] (Some ''1'') []]) = Inr ''Tax Law''"
proof -
  have h: "map_of example_archive ''xl/sharedStrings.xml'' = Some example_strings"
    by (simp add: example_archive_def)
  have n: "length (findall_child ''si'' example_strings) = 2"
    by (simp add: example_strings_def el_def findall_child_def ns_def)
  have c: "map_of (attrib (el ''c'' [(''r'', ''B2''), (''t'', ''s'')] None [el ''v'' [] (Some ''1'') []])) ''t'' = Some ''s'' \<and>
      find_first (findall_child ''v'' (el ''c'' [(''r'', ''B2''), (''t'', ''s'')] None [el ''v'' [] (Some ''1'') []])) =
        Some (el ''v'' [] (Some ''1'') []) \<and>
      text_of (el ''v'' [] (Some ''1'') []) = Some ''1'' \<and> py_int ''1'' = Some 1"
    by (simp add: el_def findall_child_def find_first_def ns_def py_int_def int_literal_def int_strip_def is_int_space_def
        strip_def is_space_def is_digit_def digit_val_def ord_def)
  note r = shared_string_pool_roundtrip [OF h, THEN conjunct2, THEN conjunct2, rule_format]
  from c n
  have "cell_value (load_shared_strings example_archive)
     (el ''c'' [(''r'', ''B2''), (''t'', ''s'')] None [el ''v'' [] (Some ''1'') []]) =
     Inr (concat (map text_or_empty (findall_desc ''t'' (findall_child ''si'' example_strings ! nat 1))))"
    by (intro r [of _ "el ''v'' [] (Some ''1'') []" "''1''" 1]) simp
  moreover have "concat (map text_or_empty (findall_desc ''t'' (findall_child ''si'' example_strings ! nat 1))) = ''Tax Law''"
    by (simp add: example_strings_def el_def findall_child_def findall_desc_def text_or_empty_def ns_def)
  ultimately show ?thesis using h n ex_pool by simp
qed

text \<open>
  Claim C5. A worksheet with fewer than four row elements never yields a result. When
  the rows parse, there are as many parsed rows as row elements; with fewer than four the
  parse ends in the structural error, and with four or more the table assembler returns
  and its result is the result of the parse.
\<close>

theorem structural_check:
  assumes "map_of zf ''xl/worksheets/sheet1.xml'' = Some sheet"
  shows "(length (sheet_rows sheet) < 4 \<longrightarrow> (\<exists>e. parse_xlsx zf = Inl e)) \<and>
    (\<forall>rows. parse_rows (load_shared_strings zf) sheet = Inr rows \<longrightarrow>
       length rows = length (sheet_rows sheet) \<and>
       (length rows < 4 \<longrightarrow> parse_xlsx zf = Inl structure_error) \<and>
       (4 \<le> length rows \<longrightarrow> (\<exists>out. assemble rows = Inr out \<and> parse_xlsx zf = Inr out)))"
proof -
  have px: "parse_xlsx zf =
      (case parse_rows (load_shared_strings zf) sheet of Inl e \<Rightarrow> Inl e | Inr rows \<Rightarrow> assemble rows)"
    using assms by (simp add: parse_xlsx_def)
  have ok: "length rows = length (sheet_rows sheet) \<and>
       (length rows < 4 \<longrightarrow> parse_xlsx zf = Inl structure_error) \<and>
       (4 \<le> length rows \<longrightarrow> (\<exists>out. assemble rows = Inr out \<and> parse_xlsx zf = Inr out))"
    if r: "parse_rows (load_shared_strings zf) sheet = Inr rows" for rows
  proof (intro conjI impI)
    show "length rows = length (sheet_rows sheet)" by (rule parse_rows_nth(1) [OF r])
    show "parse_xlsx zf = Inl structure_error" if "length rows < 4"
      using that by (simp add: px r assemble_def)
    show "\<exists>out. assemble rows = Inr out \<and> parse_xlsx zf = Inr out" if "4 \<le> length rows"
      using assemble_eq [OF that] by (simp add: px r)
  qed
  have "\<exists>e. parse_xlsx zf = Inl e" if short: "length (sheet_rows sheet) < 4"
  proof (cases "parse_rows (load_shared_strings zf) sheet")
    case (Inl e)
    then show ?thesis by (simp add: px)
  next
    case (Inr rows)
    with ok [OF Inr] short show ?thesis by auto
  qed
  with ok show ?thesis by blast
qed

theorem structural_check_witness:
  "parse_xlsx short_archive = Inl structure_error \<and>
   parse_xlsx example_archive =
     Inr ([''Finished'', ''Q35_1''],
          [[(''Finished'', ''1''), (''Q35_1'', ''1'')], [(''Finished'', ''''), (''Q35_1'', '''')]],
          [(''Finished'', ''Done?''), (''Q35_1'', ''Tax Law'')])"
proof -
  define sheet where "sheet = the (map_of short_archive ''xl/worksheets/sheet1.xml'')"
  have s: "map_of short_archive ''xl/worksheets/sheet1.xml'' = Some sheet"
    by (simp add: sheet_def short_archive_def)
  have p: "parse_rows (load_shared_strings short_archive) sheet = Inr [[(0, ''7'')], [], []]"
    by (simp add: sheet_def short_archive_def load_shared_strings_def el_def ns_def eval_defs)
  from structural_check [OF s] p have a: "parse_xlsx short_archive = Inl structure_error"
    by fastforce
  have s2: "map_of example_archive ''xl/worksheets/sheet1.xml'' = Some example_sheet"
    by (simp add: example_archive_def)
  have p2: "parse_rows (load_shared_strings example_archive) example_sheet =
     Inr [[(0, ''Finished''), (1, ''Q35_1'')], [(0, ''Done?''), (1, ''Tax Law'')], [],
          [(0, ''1''), (1, ''1'')], [(0, '''')]]"
    unfolding ex_pool by (rule ex_rows)
  have as: "assemble [[(0, ''Finished''), (1, ''Q35_1'')], [(0, ''Done?''), (1, ''Tax Law'')], [],
          [(0, ''1''), (1, ''1'')], [(0, '''')]] =
     Inr ([''Finished'', ''Q35_1''],
          [[(''Finished'', ''1''), (''Q35_1'', ''1'')], [(''Finished'', ''''), (''Q35_1'', '''')]],
          [(''Finished'', ''Done?''), (''Q35_1'', ''Tax Law'')])"
    by (simp add: assemble_def py_max_def max_default_def mk_record_def dict_get_def
        enumerate_eq_zip upto.simps Let_def)
  from structural_check [OF s2] p2 as have "parse_xlsx example_archive =
     Inr ([''Finished'', ''Q35_1''],
          [[(''Finished'', ''1''), (''Q35_1'', ''1'')], [(''Finished'', ''''), (''Q35_1'', '''')]],
          [(''Finished'', ''Done?''), (''Q35_1'', ''Tax Law'')])"
    by fastforce
  with a show ?thesis by simp
qed

lemma parse_xlsx_abort:
  assumes "map_of zf ''xl/worksheets/sheet1.xml'' = Some sheet"
    and "row \<in> set (sheet_rows sheet)" and "cell \<in> set (findall_child ''c'' row)"
    and "cell_col cell \<noteq> None" and "cell_value (load_shared_strings zf) cell = Inl e"
  shows "\<exists>e'. parse_xlsx zf = Inl e'"
proof -
  from assms(3-5) have "\<exists>e'. parse_row (load_shared_strings zf) row = Inl e'"
    unfolding parse_row_def cells_loop_Inl by blast
  with assms(2) have "\<exists>e'. parse_rows (load_shared_strings zf) sheet = Inl e'"
    unfolding parse_rows_def rows_loop_Inl by blast
  then show ?thesis using assms(1) by (auto simp: parse_xlsx_def)
qed

text \<open>
  Claim C10, amended. Take a shared-string cell with a value text in a row of the
  worksheet, and let its reference start with an uppercase letter, so that the row
  parser does not skip it. If the value text is no integer, \<^verbatim>\<open>int\<close> raises and the parse
  returns nothing; if it is an integer not below the pool size, the lookup raises and
  the parse returns nothing; with an empty pool the parse returns nothing whatever the
  text is; and for \<open>- n\<close> with \<open>1 \<le> n \<le> N\<close> the cell takes the \<open>n\<close>-th string from the
  end of the pool and stores it stripped.
\<close>

theorem shared_string_index_unchecked:
  assumes "map_of zf ''xl/worksheets/sheet1.xml'' = Some sheet"
    and "row \<in> set (sheet_rows sheet)" and "cell \<in> set (findall_child ''c'' row)"
    and "cell_col cell = Some k"
    and "map_of (attrib cell) ''t'' = Some ''s''"
    and "find_first (findall_child ''v'' cell) = Some node" and "text_of node = Some raw"
  shows "(py_int raw = None \<longrightarrow>
            cell_value (load_shared_strings zf) cell = Inl invalid_literal \<and>
            (\<exists>e. parse_xlsx zf = Inl e)) \<and>
         (\<forall>i. py_int raw = Some i \<and> int (length (load_shared_strings zf)) \<le> i \<longrightarrow>
            cell_value (load_shared_strings zf) cell = Inl IndexError \<and>
            (\<exists>e. parse_xlsx zf = Inl e)) \<and>
         (load_shared_strings zf = [] \<longrightarrow> (\<exists>e. parse_xlsx zf = Inl e)) \<and>
         (\<forall>n. py_int raw = Some (- int n) \<and> 1 \<le> n \<and> n \<le> length (load_shared_strings zf) \<longrightarrow>
            cell_value (load_shared_strings zf) cell = Inr (rev (load_shared_strings zf) ! (n - 1)) \<and>
            (\<forall>vals. cell_step (load_shared_strings zf) cell vals =
               Inr (AList.update k (strip (rev (load_shared_strings zf) ! (n - 1))) vals)))"
proof -
  define pool where "pool = load_shared_strings zf"
  note cv = cell_value_shared [OF assms(5-7), of pool]
  from assms(4) have nz: "cell_col cell \<noteq> None" by simp
  note abort = parse_xlsx_abort [OF assms(1-3) nz, folded pool_def]
  have a: "cell_value pool cell = Inl invalid_literal \<and> (\<exists>e. parse_xlsx zf = Inl e)"
    if "py_int raw = None"
  proof -
    from that cv have "cell_value pool cell = Inl invalid_literal" by simp
    with abort show ?thesis by blast
  qed
  have b: "cell_value pool cell = Inl IndexError \<and> (\<exists>e. parse_xlsx zf = Inl e)"
    if "py_int raw = Some i \<and> int (length pool) \<le> i" for i
  proof -
    from that cv have "cell_value pool cell = Inl IndexError" by (simp add: py_index_def)
    with abort show ?thesis by blast
  qed
  have c: "\<exists>e. parse_xlsx zf = Inl e" if "pool = []"
  proof (cases "py_int raw")
    case None
    with a show ?thesis by simp
  next
    case (Some i)
    with that cv have "cell_value pool cell = Inl IndexError" by (simp add: py_index_def)
    with abort show ?thesis by blast
  qed
  have d: "cell_value pool cell = Inr (rev pool ! (n - 1)) \<and>
       (\<forall>vals. cell_step pool cell vals = Inr (AList.update k (strip (rev pool ! (n - 1))) vals))"
    if "py_int raw = Some (- int n) \<and> 1 \<le> n \<and> n \<le> length pool" for n
  proof -
    from that have n: "0 < n" "n \<le> length pool" by simp_all
    then have "rev pool ! (n - 1) = pool ! (length pool - n)"
      by (simp add: rev_nth)
    moreover from n have "nat (int (length pool) - int n) = length pool - n" by simp
    ultimately have "cell_value pool cell = Inr (rev pool ! (n - 1))"
      using that cv n by (simp add: py_index_def)
    then show ?thesis using assms(4) by (simp add: cell_step_def)
  qed
  from a b c d show ?thesis unfolding pool_def by blast
qed

theorem shared_string_index_unchecked_witness:
  "parse_xlsx unchecked_archive = Inl IndexError"
proof -
  define cell where "cell = el ''c'' [(''r'', ''B4''), (''t'', ''s'')] None [el ''v'' [] (Some ''1'') []]"
  define row where "row = el ''row'' [] None [cell]"
  define sheet where "sheet = el ''worksheet'' [] None
         [el ''sheetData'' [] None
            [el ''row'' [] None [], el ''row'' [] None [], el ''row'' [] None [], row]]"
  have 1: "map_of unchecked_archive ''xl/worksheets/sheet1.xml'' = Some sheet"
    by (simp add: unchecked_archive_def sheet_def row_def cell_def)
  have 2: "row \<in> set (sheet_rows sheet)"
    by (simp add: sheet_def row_def sheet_rows_def findall_desc_def findall_child_def el_def ns_def)
  have 3: "cell \<in> set (findall_child ''c'' row)"
    by (simp add: row_def cell_def findall_child_def el_def ns_def)
  have 4: "cell_col cell = Some 1"
    by (simp add: cell_def el_def cell_col_def dict_get_def is_upper_def ord_def col_to_index_def)
  have 5: "map_of (attrib cell) ''t'' = Some ''s''" by (simp add: cell_def el_def)
  have 6: "find_first (findall_child ''v'' cell) = Some (el ''v'' [] (Some ''1'') [])"
    by (simp add: cell_def el_def findall_child_def find_first_def ns_def)
  have 7: "text_of (el ''v'' [] (Some ''1'') []) = Some ''1''" by (simp add: el_def)
  have p: "load_shared_strings unchecked_archive = [''only'']"
    by (simp add: load_shared_strings_def unchecked_archive_def el_def
      findall_child_def findall_desc_def si_text_def text_or_empty_def ns_def)
  have i: "py_int ''1'' = Some 1"
    by (simp add: py_int_def int_literal_def int_strip_def is_int_space_def strip_def is_space_def is_digit_def digit_val_def ord_def)
  from shared_string_index_unchecked [OF 1 2 3 4 5 6 7] i p
  have "cell_value (load_shared_strings unchecked_archive) cell = Inl IndexError" by simp
  moreover have "parse_xlsx unchecked_archive =
      (case parse_rows [''only''] sheet of Inl e \<Rightarrow> Inl e | Inr rows \<Rightarrow> assemble rows)"
    using 1 by (simp add: parse_xlsx_def p)
  moreover have "parse_rows [''only''] sheet = Inl IndexError"
    by (simp add: sheet_def row_def cell_def el_def ns_def eval_defs)
  ultimately show ?thesis by simp
qed

text \<open>
  Claim C10 as stated fails for a cell that the row parser skips: the cell below declares
  the shared-string type, its value text is no integer and the pool is empty, and yet
  the parse returns a table.
\<close>

theorem shared_string_skipped_counterexample:
  "map_of (attrib skipped_cell) ''t'' = Some ''s'' \<and>
   map_option text_of (find_first (findall_child ''v'' skipped_cell)) = Some (Some ''x'') \<and>
   py_int ''x'' = None \<and>
   load_shared_strings skipped_archive = [] \<and>
   parse_xlsx skipped_archive = Inr ([''COL_0''], [[(''COL_0'', [])]], [(''COL_0'', [])])"
proof -
  have "parse_rows [] (el ''worksheet'' [] None
         [el ''sheetData'' [] None
            [el ''row'' [] None [skipped_cell],
             el ''row'' [] None [], el ''row'' [] None [], el ''row'' [] None []]]) = Inr [[], [], [], []]"
    by (simp add: skipped_cell_def el_def ns_def eval_defs)
  moreover have "assemble [[], [], [], []] = Inr ([''COL_0''], [[(''COL_0'', [])]], [(''COL_0'', [])])"
    by (simp add: assemble_def py_max_def max_default_def mk_record_def dict_get_def
        enumerate_eq_zip upto.simps Let_def str_int_def str_nat.simps digit_char_def)
  moreover have "load_shared_strings skipped_archive = []"
    by (simp add: load_shared_strings_def skipped_archive_def)
  ultimately have "parse_xlsx skipped_archive = Inr ([''COL_0''], [[(''COL_0'', [])]], [(''COL_0'', [])])"
    by (simp add: parse_xlsx_def skipped_archive_def)
  moreover have "py_int ''x'' = None"
    by (simp add: py_int_def int_literal_def int_strip_def is_int_space_def strip_def is_space_def is_digit_def digit_val_def ord_def)
  moreover have "map_of (attrib skipped_cell) ''t'' = Some ''s''"
    by (simp add: skipped_cell_def el_def)
  moreover have "map_option text_of (find_first (findall_child ''v'' skipped_cell)) = Some (Some ''x'')"
    by (simp add: skipped_cell_def el_def findall_child_def find_first_def ns_def)
  ultimately show ?thesis using \<open>load_shared_strings skipped_archive = []\<close> by simp
qed

section \<open>Course names\<close>

lemma startswith_iff: "startswith s p \<longleftrightarrow> (\<exists>post. s = p @ post)"
proof
  assume "startswith s p"
  then have "s = p @ drop (length p) s"
    unfolding startswith_def by (metis append_take_drop_id)
  then show "\<exists>post. s = p @ post" ..
next
  assume "\<exists>post. s = p @ post"
  then show "startswith s p" by (auto simp: startswith_def)
qed

lemma str_contains_iff: "str_contains sep s \<longleftrightarrow> (\<exists>pre post. s = pre @ sep @ post)"
proof (induction s)
  case Nil
  show ?case by auto
next
  case (Cons c cs)
  show ?case
  proof
    assume "str_contains sep (c # cs)"
    then consider "startswith (c # cs) sep" | "str_contains sep cs" by auto
    then show "\<exists>pre post. c # cs = pre @ sep @ post"
    proof cases
      case 1
      then obtain post where "c # cs = sep @ post" unfolding startswith_iff ..
      then have "c # cs = [] @ sep @ post" by simp
      then show ?thesis by blast
    next
      case 2
      with Cons.IH obtain pre post where "cs = pre @ sep @ post" by blast
      then have "c # cs = (c # pre) @ sep @ post" by simp
      then show ?thesis by blast
    qed
  next
    assume "\<exists>pre post. c # cs = pre @ sep @ post"
    then obtain pre post where e: "c # cs = pre @ sep @ post" by blast
    show "str_contains sep (c # cs)"
    proof (cases pre)
      case Nil
      with e have "startswith (c # cs) sep" unfolding startswith_iff by auto
      then show ?thesis by simp
    next
      case (Cons p ps)
      with e have "cs = ps @ sep @ post" by simp
      with Cons.IH show ?thesis by auto
    qed
  qed
qed

lemma split_loop_acc:
  "split_loop sep cur s = (cur @ hd (split_loop sep [] s)) # tl (split_loop sep [] s)"
proof (induction s arbitrary: cur rule: length_induct)
  case (1 s)
  show ?case
  proof (cases s)
    case Nil
    then show ?thesis by (simp add: split_loop.simps)
  next
    case (Cons c cs)
    show ?thesis
    proof (cases "sep \<noteq> [] \<and> startswith s sep")
      case True
      have "split_loop sep acc s = acc # split_loop sep [] (drop (length sep) s)" for acc
        using True Cons by (subst split_loop.simps) simp
      then show ?thesis by simp
    next
      case False
      have step: "split_loop sep acc s = split_loop sep (acc @ [c]) cs" for acc
        using False Cons by (subst split_loop.simps) auto
      have "length cs < length s" using Cons by simp
      then have ih: "split_loop sep acc cs = (acc @ hd (split_loop sep [] cs)) # tl (split_loop sep [] cs)"
        for acc using "1.IH" by blast
      show ?thesis
        unfolding step [of cur] step [of "[]"] by (simp add: ih [of "cur @ [c]"] ih [of "[c]"])
    qed
  qed
qed

lemma py_split_Nil: "py_split [] sep = [[]]"
  by (simp add: py_split_def split_loop.simps)

lemma py_split_match:
  "sep \<noteq> [] \<Longrightarrow> startswith (c # cs) sep \<Longrightarrow>
     py_split (c # cs) sep = [] # py_split (drop (length sep) (c # cs)) sep"
  unfolding py_split_def by (subst split_loop.simps) simp

lemma py_split_skip:
  "\<not> startswith (c # cs) sep \<Longrightarrow>
     py_split (c # cs) sep = (c # hd (py_split cs sep)) # tl (py_split cs sep)"
proof -
  assume "\<not> startswith (c # cs) sep"
  then have "split_loop sep [] (c # cs) = split_loop sep [c] cs"
    by (subst split_loop.simps) simp
  then show ?thesis unfolding py_split_def using split_loop_acc [of sep "[c]" cs] by simp
qed

lemma py_split_ne: "py_split s sep \<noteq> []"
  unfolding py_split_def by (subst split_loop_acc) simp

lemma py_split_spec:
  "sep \<noteq> [] \<Longrightarrow>
     (\<not> str_contains sep s \<longrightarrow> py_split s sep = [s]) \<and>
     (str_contains sep s \<longrightarrow>
        2 \<le> length (py_split s sep) \<and> (\<exists>pre. s = pre @ sep @ last (py_split s sep)) \<and>
        \<not> str_contains sep (last (py_split s sep)))"
proof (induction s rule: length_induct)
  case (1 s)
  note sep = \<open>sep \<noteq> []\<close>
  show ?case
  proof (cases s)
    case Nil
    with sep show ?thesis by (simp add: py_split_Nil)
  next
    case (Cons c cs)
    show ?thesis
    proof (cases "startswith s sep")
      case True
      define r where "r = drop (length sep) s"
      from True have s: "s = sep @ r"
        unfolding r_def startswith_def by (metis append_take_drop_id)
      with sep have "length r < length s" by simp
      with "1.IH" sep have ih:
        "(\<not> str_contains sep r \<longrightarrow> py_split r sep = [r]) \<and>
         (str_contains sep r \<longrightarrow>
            2 \<le> length (py_split r sep) \<and> (\<exists>pre. r = pre @ sep @ last (py_split r sep)) \<and>
            \<not> str_contains sep (last (py_split r sep)))" by blast
      have sp: "py_split s sep = [] # py_split r sep"
        using py_split_match [OF sep] True Cons by (simp add: r_def)
      have c: "str_contains sep s" using True Cons by simp
      have len: "2 \<le> length (py_split s sep)"
        using py_split_ne [of r sep] by (cases "py_split r sep") (simp_all add: sp)
      have l: "last (py_split s sep) = last (py_split r sep)"
        using py_split_ne [of r sep] by (simp add: sp)
      have "(\<exists>pre. s = pre @ sep @ last (py_split r sep)) \<and>
            \<not> str_contains sep (last (py_split r sep))"
      proof (cases "str_contains sep r")
        case False
        with ih have "py_split r sep = [r]" by simp
        with False s show ?thesis by (metis append_Nil last.simps)
      next
        case True
        with ih obtain pre where "r = pre @ sep @ last (py_split r sep)"
          and n: "\<not> str_contains sep (last (py_split r sep))" by blast
        with s have "s = (sep @ pre) @ sep @ last (py_split r sep)" by simp
        with n show ?thesis by blast
      qed
      with c len l show ?thesis by simp
    next
      case False
      have "length cs < length s" using Cons by simp
      with "1.IH" sep have ih:
        "(\<not> str_contains sep cs \<longrightarrow> py_split cs sep = [cs]) \<and>
         (str_contains sep cs \<longrightarrow>
            2 \<le> length (py_split cs sep) \<and> (\<exists>pre. cs = pre @ sep @ last (py_split cs sep)) \<and>
            \<not> str_contains sep (last (py_split cs sep)))" by blast
      have c: "str_contains sep s = str_contains sep cs" using False Cons by simp
      have sp: "py_split s sep = (c # hd (py_split cs sep)) # tl (py_split cs sep)"
        using py_split_skip False Cons by simp
      show ?thesis
      proof (cases "str_contains sep cs")
        case no: False
        with ih have "py_split cs sep = [cs]" by simp
        with no c sp Cons show ?thesis by simp
      next
        case yes: True
        with ih have len: "2 \<le> length (py_split cs sep)"
          and "\<exists>pre. cs = pre @ sep @ last (py_split cs sep)"
          and n: "\<not> str_contains sep (last (py_split cs sep))" by blast+
        then obtain pre where "cs = pre @ sep @ last (py_split cs sep)" by blast
        with Cons have e: "s = (c # pre) @ sep @ last (py_split cs sep)" by simp
        from len obtain y1 y2 ys where y: "py_split cs sep = y1 # y2 # ys"
          by (cases "py_split cs sep"; cases "tl (py_split cs sep)") auto
        have l: "last (py_split s sep) = last (py_split cs sep)" by (simp add: sp y)
        have "2 \<le> length (py_split s sep)" by (simp add: sp y)
        with yes c l e n show ?thesis by (metis)
      qed
    qed
  qed
qed

text \<open>
  Claim C8. A question text contains the separator exactly when it can be cut into a
  part before, the separator and a part after. If it does, the course name is the
  stripped last segment of the split, and that segment is what follows a separator in
  the text and holds no separator itself; the text \<open>Some Prefix - Tax Law\<close> gives
  \<open>Tax Law\<close>. If it does not, the course name is the stripped text, or
  \<open>Unknown Course\<close> when the stripped text is empty.
\<close>

theorem course_name_derivation:
  "(str_contains '' - '' q \<longleftrightarrow> (\<exists>pre post. q = pre @ '' - '' @ post)) \<and>
   (str_contains '' - '' q \<longrightarrow>
      parse_course_name q = strip (last (py_split q '' - '')) \<and>
      (\<exists>pre. q = pre @ '' - '' @ last (py_split q '' - '')) \<and>
      \<not> str_contains '' - '' (last (py_split q '' - ''))) \<and>
   (\<not> str_contains '' - '' q \<and> strip q \<noteq> [] \<longrightarrow> parse_course_name q = strip q) \<and>
   (\<not> str_contains '' - '' q \<and> strip q = [] \<longrightarrow> parse_course_name q = ''Unknown Course'') \<and>
   parse_course_name ''Some Prefix - Tax Law'' = ''Tax Law''"
proof (intro conjI impI)
  show "str_contains '' - '' q \<longleftrightarrow> (\<exists>pre post. q = pre @ '' - '' @ post)"
    by (rule str_contains_iff)
  have ne: "'' - '' \<noteq> []" by simp
  note sp = py_split_spec [OF ne, of q]
  show "parse_course_name q = strip (last (py_split q '' - ''))" if "str_contains '' - '' q"
    using that by (simp add: parse_course_name_def)
  show "\<exists>pre. q = pre @ '' - '' @ last (py_split q '' - '')" if "str_contains '' - '' q"
    using that sp by blast
  show "\<not> str_contains '' - '' (last (py_split q '' - ''))" if "str_contains '' - '' q"
    using that sp by blast
  show "parse_course_name q = strip q" if "\<not> str_contains '' - '' q \<and> strip q \<noteq> []"
    using that by (simp add: parse_course_name_def)
  show "parse_course_name q = ''Unknown Course''" if "\<not> str_contains '' - '' q \<and> strip q = []"
    using that by (simp add: parse_course_name_def)
  show "parse_course_name ''Some Prefix - Tax Law'' = ''Tax Law''"
    by (simp add: parse_course_name_def startswith_def py_split_def split_loop.simps
        strip_def is_space_def ord_def)
qed

theorem course_name_derivation_witness:
  "str_contains '' - '' ''Some Prefix - Tax Law'' \<and>
   parse_course_name ''Some Prefix - Tax Law'' = strip (last (py_split ''Some Prefix - Tax Law'' '' - '')) \<and>
   \<not> str_contains '' - '' ''  Audit '' \<and> strip ''  Audit '' \<noteq> [] \<and>
   parse_course_name ''  Audit '' = ''Audit'' \<and>
   \<not> str_contains '' - '' ''  '' \<and> strip ''  '' = [] \<and> parse_course_name ''  '' = ''Unknown Course''"
proof -
  have a: "str_contains '' - '' ''Some Prefix - Tax Law''" by (simp add: startswith_def)
  have b: "\<not> str_contains '' - '' ''  Audit '' \<and> strip ''  Audit '' \<noteq> []"
    by (simp add: startswith_def strip_def is_space_def ord_def)
  have b': "strip ''  Audit '' = ''Audit''" by (simp add: strip_def is_space_def ord_def)
  have c: "\<not> str_contains '' - '' ''  '' \<and> strip ''  '' = []"
    by (simp add: startswith_def strip_def is_space_def ord_def)
  from a course_name_derivation [of "''Some Prefix - Tax Law''"]
  have "parse_course_name ''Some Prefix - Tax Law'' =
      strip (last (py_split ''Some Prefix - Tax Law'' '' - ''))" by blast
  moreover from b course_name_derivation [of "''  Audit ''"]
  have "parse_course_name ''  Audit '' = strip ''  Audit ''" by blast
  moreover from c course_name_derivation [of "''  ''"]
  have "parse_course_name ''  '' = ''Unknown Course''" by blast
  ultimately show ?thesis using a b b' c by simp
qed

section \<open>Reading numbers\<close>

lemma bit_length_bounds: "0 < n \<Longrightarrow> 2 ^ (bit_length n - 1) \<le> n \<and> n < 2 ^ bit_length n"
proof (induction n rule: bit_length.induct)
  case (1 n)
  show ?case
  proof (cases "n div 2 = 0")
    case True
    with "1.prems" have "n = 1" by (simp add: div_eq_0_iff)
    then show ?thesis by (simp add: bit_length.simps)
  next
    case False
    then have pos: "0 < n div 2" by simp
    from "1.IH" [OF _ pos] "1.prems"
    have ih: "2 ^ (bit_length (n div 2) - 1) \<le> n div 2" "n div 2 < 2 ^ bit_length (n div 2)"
      by simp_all
    have bl: "bit_length n = Suc (bit_length (n div 2))"
      using "1.prems" by (subst bit_length.simps) simp
    have blpos: "0 < bit_length (n div 2)"
      using pos by (subst bit_length.simps) simp
    then have "(2::nat) ^ bit_length (n div 2) = 2 * 2 ^ (bit_length (n div 2) - 1)"
      by (cases "bit_length (n div 2)") simp_all
    with ih show ?thesis unfolding bl by simp linarith
  qed
qed

lemma float_of_nat_small: "n < 2 ^ 53 \<Longrightarrow> float_of_nat n = Some n"
  by (simp add: float_of_nat_def)

lemma float_of_nat_overflow:
  assumes "2 ^ 1024 \<le> n"
  shows "float_of_nat n = None"
proof -
  define L where "L = bit_length n"
  define e where "e = L - 53"
  have "(0::nat) < 2 ^ 1024" by simp
  with assms have pos: "0 < n" by linarith
  from bit_length_bounds [OF pos] have lo: "2 ^ (L - 1) \<le> n" and hi: "n < 2 ^ L"
    by (simp_all add: L_def)
  from assms hi have "(2::nat) ^ 1024 < 2 ^ L" by linarith
  then have L: "1024 < L" by (rule power_less_imp_less_exp [rotated]) simp
  then have split: "L - 1 = 52 + e" by (simp add: e_def)
  have "(2::nat) ^ 52 * 2 ^ e \<le> n" using lo unfolding split by (simp add: power_add)
  then have q: "2 ^ 52 \<le> n div 2 ^ e"
    by (simp add: less_eq_div_iff_mult_less_eq)
  define q' where "q' = (if 2 * (n mod 2 ^ e) > 2 ^ e \<or> (2 * (n mod 2 ^ e) = 2 ^ e \<and> odd (n div 2 ^ e))
                         then n div 2 ^ e + 1 else n div 2 ^ e)"
  have "n div 2 ^ e \<le> q'" by (simp add: q'_def)
  with q have "2 ^ 52 \<le> q'" by linarith
  then have a: "(2::nat) ^ 52 * 2 ^ e \<le> q' * 2 ^ e" by (rule mult_le_mono1)
  have "(2::nat) ^ 1024 \<le> 2 ^ (52 + e)"
    using L by (intro power_increasing) (simp_all add: e_def)
  then have "(2::nat) ^ 1024 \<le> 2 ^ 52 * 2 ^ e" by (simp only: power_add)
  then have big: "2 ^ 1024 \<le> q' * 2 ^ e" using a by (rule order_trans)
  have "(2::nat) ^ 53 \<le> 2 ^ 1024" by (intro power_increasing) simp_all
  with assms have n53: "\<not> n < 2 ^ 53" by linarith
  show ?thesis
    using n53 big unfolding float_of_nat_def Let_def L_def [symmetric] e_def [symmetric] q'_def [symmetric]
    by simp
qed

lemma strip_id:
  "s \<noteq> [] \<Longrightarrow> \<not> is_space (hd s) \<Longrightarrow> \<not> is_space (last s) \<Longrightarrow> strip s = s"
proof -
  assume ne: "s \<noteq> []" and h: "\<not> is_space (hd s)" and l: "\<not> is_space (last s)"
  from h have a: "dropWhile is_space s = s" by (simp add: dropWhile_eq_self_iff)
  from ne l have "\<not> is_space (hd (rev s))" by (simp add: hd_rev)
  then have b: "dropWhile is_space (rev s) = rev s" by (simp add: dropWhile_eq_self_iff)
  show ?thesis by (simp add: strip_def a b)
qed

lemma digits_val_zeros:
  "foldl (\<lambda>acc c. acc * 10 + digit_val c) a (replicate k CHR ''0'') = a * 10 ^ k"
  by (induction k arbitrary: a) (simp_all add: digit_val_def ord_def)

lemma clean_numeric_huge:
  "clean_numeric (CHR ''1'' # replicate 309 CHR ''0'') = Inl OverflowError"
proof -
  let ?v = "CHR ''1'' # replicate 309 CHR ''0''"
  have d0: "is_digit CHR ''0''" and d1: "is_digit CHR ''1''" by (simp_all add: is_digit_def ord_def)
  have sp: "\<not> is_space CHR ''0''" "\<not> is_space CHR ''1''" by (simp_all add: is_space_def ord_def)
  have s: "strip ?v = ?v" by (rule strip_id) (simp_all add: sp)
  have tw: "takeWhile is_digit ?v = ?v" using d0 d1 by (simp add: takeWhile_eq_all_conv)
  have dw: "dropWhile is_digit ?v = []" using d0 d1 by simp
  have m: "matches_numeric ?v" by (simp only: matches_numeric_def Let_def tw dw) simp
  have dv: "digit_val CHR ''1'' = 1" by (simp add: digit_val_def ord_def)
  have "digits_val ?v = 10 ^ 309"
    by (simp add: digits_val_def digits_val_zeros dv)
  moreover have "(2::nat) ^ 1024 \<le> 10 ^ 309" by simp
  ultimately have "float_of_nat (digits_val ?v) = None" by (simp add: float_of_nat_overflow)
  then show ?thesis
    by (simp only: clean_numeric_def Let_def s tw m) simp
qed

section \<open>Rounding to a double\<close>

lemma floor_rat_numeral: "\<lfloor>numeral a / numeral b :: rat\<rfloor> = numeral a div numeral b"
  by (metis floor_divide_of_int_eq of_int_numeral)

lemma ceiling_rat_numeral: "\<lceil>numeral a / numeral b :: rat\<rceil> = - (- numeral a div numeral b)"
  using ceiling_divide_eq_div [of "numeral a" "numeral b", where ?'a = rat] by simp

lemmas float_defs = round_double_def ilog2_def bit_length.simps round_half_even_def Let_def
  floor_rat_numeral ceiling_rat_numeral

lemma bit_length_pos: "0 < n \<Longrightarrow> 0 < bit_length n"
  by (subst bit_length.simps) simp

lemma ilog2_bounds:
  assumes "0 < x"
  shows "2 powi (ilog2 x) \<le> x" and "x < 2 powi (ilog2 x + 1)"
proof -
  have "2 powi (ilog2 x) \<le> x \<and> x < 2 powi (ilog2 x + 1)"
  proof (cases "1 \<le> x")
    case True
    define n where "n = nat \<lfloor>x\<rfloor>"
    define L where "L = bit_length n"
    from True have fl: "1 \<le> \<lfloor>x\<rfloor>" by simp
    then have n: "0 < n" and nx: "of_nat n \<le> x" and xn: "x < of_nat n + 1"
      by (simp_all add: n_def) linarith+
    from bit_length_bounds [OF n] have lo: "2 ^ (L - 1) \<le> n" and hi: "n < 2 ^ L"
      by (simp_all add: L_def)
    from bit_length_pos [OF n] have L: "0 < L" by (simp add: L_def)
    have e: "ilog2 x = int (L - 1)" using True L by (simp add: ilog2_def n_def L_def)
    have e1: "ilog2 x + 1 = int L" using e L by simp
    have "(2::rat) ^ (L - 1) \<le> of_nat n"
      using lo by (metis of_nat_le_iff of_nat_numeral of_nat_power)
    with nx have a: "2 powi (ilog2 x) \<le> x" unfolding e power_int_of_nat by linarith
    from hi have "n + 1 \<le> 2 ^ L" by simp
    then have "(of_nat (n + 1) :: rat) \<le> of_nat (2 ^ L)" by (simp only: of_nat_le_iff)
    then have "(of_nat n :: rat) + 1 \<le> 2 ^ L" by simp
    with xn have b: "x < 2 powi (ilog2 x + 1)" unfolding e1 power_int_of_nat by linarith
    from a b show ?thesis ..
  next
    case False
    with assms have x1: "x < 1" by simp
    define y where "y = 1 / x"
    define c where "c = \<lceil>y\<rceil>"
    define k where "k = nat (c - 1)"
    define L where "L = bit_length k"
    from assms x1 have y1: "1 < y" by (simp add: y_def)
    then have c2: "2 \<le> c" unfolding c_def by (simp add: le_ceiling_iff) 
    then have k: "0 < k" and kc: "int k = c - 1" by (simp_all add: k_def)
    from bit_length_bounds [OF k] have lo: "2 ^ (L - 1) \<le> k" and hi: "k < 2 ^ L"
      by (simp_all add: L_def)
    from bit_length_pos [OF k] have L: "0 < L" by (simp add: L_def)
    have e: "ilog2 x = - int L" using False by (simp add: ilog2_def y_def c_def k_def L_def)
    have e1: "ilog2 x + 1 = - int (L - 1)" using e L by simp
    have yc: "y \<le> of_int c" unfolding c_def by simp
    have cy: "of_int c - 1 < y" unfolding c_def by linarith
    from hi have "int k + 1 \<le> 2 ^ L"
      by (metis add.commute of_nat_Suc of_nat_numeral of_nat_power Suc_leI of_nat_le_iff plus_1_eq_Suc)
    then have "c \<le> 2 ^ L" using kc by simp
    then have "(of_int c :: rat) \<le> 2 ^ L" by (metis of_int_le_iff of_int_numeral of_int_power)
    with yc have yL: "y \<le> 2 ^ L" by linarith
    have pos: "(0::rat) < 2 ^ L" by simp
    from yL assms have "1 \<le> x * 2 ^ L" by (simp add: y_def field_simps)
    then have a: "2 powi (ilog2 x) \<le> x"
      unfolding e power_int_minus power_int_of_nat by (simp add: field_simps)
    from lo have "(2::rat) ^ (L - 1) \<le> of_nat k"
      by (metis of_nat_le_iff of_nat_numeral of_nat_power)
    also have "(of_nat k :: rat) = of_int c - 1" using kc by (metis of_int_of_nat_eq of_int_diff of_int_1)
    finally have "2 ^ (L - 1) < y" using cy by linarith
    with assms have "x * 2 ^ (L - 1) < 1" by (simp add: y_def field_simps)
    then have b: "x < 2 powi (ilog2 x + 1)"
      unfolding e1 power_int_minus power_int_of_nat by (simp add: field_simps)
    from a b show ?thesis ..
  qed
  then show "2 powi (ilog2 x) \<le> x" and "x < 2 powi (ilog2 x + 1)" by simp_all
qed

lemma ilog2_unique:
  assumes "0 < x" "2 powi e \<le> x" "x < 2 powi (e + 1)"
  shows "ilog2 x = e"
proof (rule ccontr)
  assume ne: "ilog2 x \<noteq> e"
  note b = ilog2_bounds [OF assms(1)]
  show False
  proof (cases "ilog2 x < e")
    case True
    then have "ilog2 x + 1 \<le> e" by simp
    then have "(2::rat) powi (ilog2 x + 1) \<le> 2 powi e" by (rule power_int_increasing) simp
    with b(2) assms(2) show False by linarith
  next
    case False
    with ne have "e + 1 \<le> ilog2 x" by simp
    then have "(2::rat) powi (e + 1) \<le> 2 powi (ilog2 x)" by (rule power_int_increasing) simp
    with b(1) assms(3) show False by linarith
  qed
qed

lemma round_half_even_int: "round_half_even (of_int k) = k"
  by (simp add: round_half_even_def)

lemma round_half_even_near: "\<bar>of_int (round_half_even m) - m\<bar> \<le> 1 / 2"
proof -
  have "of_int \<lfloor>m\<rfloor> \<le> m" "m < of_int \<lfloor>m\<rfloor> + 1" by linarith+
  then show ?thesis by (auto simp: round_half_even_def)
qed

lemma round_double_exact:
  fixes k :: int
  assumes "0 < k" "k < 2 ^ 53" "- 1074 \<le> s"
  shows "round_double (of_int k * 2 powi s) = of_int k * 2 powi s"
proof -
  define x :: rat where "x = of_int k * 2 powi s"
  define L where "L = bit_length (nat k)"
  from assms(1) have nk: "0 < nat k" by simp
  from bit_length_bounds [OF nk] have lo: "2 ^ (L - 1) \<le> nat k" and hi: "nat k < 2 ^ L"
    by (simp_all add: L_def)
  from bit_length_pos [OF nk] have L: "0 < L" by (simp add: L_def)
  have p: "(0::rat) < 2 powi s" by simp
  have x: "0 < x" using assms(1) p by (simp add: x_def)
  from lo have "int (2 ^ (L - 1)) \<le> int (nat k)" by (simp only: of_nat_le_iff)
  then have lo': "2 ^ (L - 1) \<le> k" using assms(1) by simp
  from hi have "int (nat k) < int (2 ^ L)" by (simp only: of_nat_less_iff)
  then have hi': "k < 2 ^ L" using assms(1) by simp
  from lo' assms(2) have "(2::int) ^ (L - 1) < 2 ^ 53" by linarith
  then have "L - 1 < 53" by (rule power_less_imp_less_exp [rotated]) simp
  have "(2::rat) ^ (L - 1) \<le> of_int k"
    using lo' by (metis of_int_le_iff of_int_numeral of_int_power)
  then have "2 ^ (L - 1) * 2 powi s \<le> x" unfolding x_def using p by (simp add: mult_right_mono)
  moreover have "(2::rat) powi (int (L - 1) + s) = 2 ^ (L - 1) * 2 powi s"
  proof -
    have "(2::rat) powi (int (L - 1) + s) = 2 powi int (L - 1) * 2 powi s"
      by (rule power_int_add) simp
    then show ?thesis by (simp only: power_int_of_nat)
  qed
  ultimately have b1: "2 powi (int (L - 1) + s) \<le> x" by (simp only:)
  have "of_int k < (2::rat) ^ L"
    using hi' by (metis of_int_less_iff of_int_numeral of_int_power)
  then have "x < 2 ^ L * 2 powi s" unfolding x_def using p by (simp add: mult_strict_right_mono)
  moreover have "(2::rat) powi (int (L - 1) + s + 1) = 2 ^ L * 2 powi s"
  proof -
    have eq: "int (L - 1) + s + 1 = int L + s" using L by arith
    have "(2::rat) powi (int L + s) = 2 powi int L * 2 powi s"
      by (rule power_int_add) simp
    then show ?thesis unfolding eq by (simp only: power_int_of_nat)
  qed
  ultimately have b2: "x < 2 powi (int (L - 1) + s + 1)" by (simp only:)
  have il: "ilog2 x = int (L - 1) + s" using x b1 b2 by (rule ilog2_unique)
  have L52: "int (L - 1) \<le> 52" using \<open>L - 1 < 53\<close> by simp
  define e where "e = max (ilog2 \<bar>x\<bar> - 52) (- 1074)"
  have ax: "\<bar>x\<bar> = x" using x by simp
  have es: "e \<le> s" unfolding e_def ax il using L52 assms(3) by linarith
  define d where "d = nat (s - e)"
  have sd: "s = e + int d" using es by (simp add: d_def)
  have "(2::rat) powi (e + int d) = 2 powi e * 2 powi int d"
    by (rule power_int_add) simp
  then have ps: "(2::rat) powi s = 2 powi e * 2 ^ d"
    unfolding sd [symmetric] by (simp only: power_int_of_nat)
  have pe: "(0::rat) < 2 powi e" by simp
  have m: "x / 2 powi e = of_int (k * 2 ^ d)"
    unfolding x_def ps using pe by simp
  have "round_double x = of_int (round_half_even (x / 2 powi e)) * 2 powi e"
    using x by (simp add: round_double_def e_def Let_def)
  also have "\<dots> = of_int (k * 2 ^ d) * 2 powi e"
    unfolding m round_half_even_int ..
  also have "\<dots> = x" unfolding x_def ps by simp
  finally show ?thesis unfolding x_def .
qed

lemma round_double_error:
  assumes "0 < x" "x < 128"
  shows "\<bar>round_double x - x\<bar> \<le> 1 / 2 ^ 47"
proof -
  define e where "e = max (ilog2 \<bar>x\<bar> - 52) (- 1074)"
  have "ilog2 x < 7"
  proof (rule ccontr)
    assume "\<not> ilog2 x < 7"
    then have "7 \<le> ilog2 x" by simp
    then have "(2::rat) powi 7 \<le> 2 powi (ilog2 x)" by (rule power_int_increasing) simp
    with ilog2_bounds(1) [OF assms(1)] assms(2) show False by simp
  qed
  with assms(1) have e: "e \<le> - 46" by (simp add: e_def)
  have pe: "(0::rat) < 2 powi e" by simp
  have "(2::rat) powi e \<le> 2 powi (- 46)" using e by (rule power_int_increasing) simp
  then have pb: "(2::rat) powi e \<le> 1 / 2 ^ 46" by (simp add: power_int_minus_divide)
  define q where "q = round_half_even (x / 2 powi e)"
  have rd: "round_double x = of_int q * 2 powi e"
    using assms(1) by (simp add: round_double_def e_def q_def Let_def)
  have "round_double x - x = (of_int q - x / 2 powi e) * 2 powi e"
    unfolding rd using pe by (simp add: field_simps)
  then have "\<bar>round_double x - x\<bar> = \<bar>of_int q - x / 2 powi e\<bar> * 2 powi e"
    using pe by (simp add: abs_mult)
  also have "\<dots> \<le> (1 / 2) * 2 powi e"
    using round_half_even_near [of "x / 2 powi e"] pe unfolding q_def
    by (intro mult_right_mono) simp_all
  also have "\<dots> \<le> (1 / 2) * (1 / 2 ^ 46)" using pb by simp
  also have "\<dots> = 1 / 2 ^ 47" by simp
  finally show ?thesis .
qed

section \<open>Normalization and aggregation\<close>

lemma for_each_inv:
  assumes "\<And>x st st'. x \<in> set xs \<Longrightarrow> I st \<Longrightarrow> body x st = Inr st' \<Longrightarrow> I st'"
    and "I st" and "for_each body xs st = Inr st'"
  shows "I st'"
  using assms
proof (induction xs arbitrary: st)
  case Nil
  then show ?case by simp
next
  case (Cons x xs)
  from Cons.prems(3) obtain st1 where 1: "body x st = Inr st1" and 2: "for_each body xs st1 = Inr st'"
    by (auto split: sum.splits)
  have i1: "I st1" using Cons.prems(1) [of x st st1] Cons.prems(2) 1 by simp
  show ?case
  proof (rule Cons.IH [OF _ i1 2])
    fix y s s' assume "y \<in> set xs" "I s" "body y s = Inr s'"
    then show "I s'" using Cons.prems(1) [of y s s'] by simp
  qed
qed

lemma for_each_grows:
  assumes "\<And>x st st'. body x st = Inr st' \<Longrightarrow> set (fst st) \<subseteq> set (fst st')"
    and "for_each body xs st = Inr st'"
  shows "set (fst st) \<subseteq> set (fst st')"
proof (rule for_each_inv [where I = "\<lambda>s. set (fst st) \<subseteq> set (fst s)" and body = body and xs = xs and st = st])
  fix x s s' assume "set (fst st) \<subseteq> set (fst s)" "body x s = Inr s'"
  with assms(1) [of x s s'] show "set (fst st) \<subseteq> set (fst s')" by blast
next
  show "set (fst st) \<subseteq> set (fst st)" by simp
  show "for_each body xs st = Inr st'" by (rule assms(2))
qed

lemma for_each_reaches:
  assumes "x \<in> set xs" and "for_each body xs st = Inr st'"
  shows "\<exists>s1 s2. body x s1 = Inr s2 \<and>
           for_each body (tl (dropWhile (\<lambda>y. y \<noteq> x) xs)) s2 = Inr st'"
  using assms
proof (induction xs arbitrary: st)
  case Nil
  then show ?case by simp
next
  case (Cons y ys)
  from Cons.prems(2) obtain st1 where 1: "body y st = Inr st1" and 2: "for_each body ys st1 = Inr st'"
    by (auto split: sum.splits)
  show ?case
  proof (cases "y = x")
    case True
    with 1 2 show ?thesis by auto
  next
    case False
    with Cons.prems(1) have "x \<in> set ys" by simp
    from Cons.IH [OF this 2] False show ?thesis by simp
  qed
qed

lemma fst_record_score:
  "fst (record_score kind rid c v s st) =
     fst st @ [\<lparr>response_id = rid, lr_course = c, source_type = kind, response_value = v,
                 normalized_score = s\<rparr>]"
  by (cases st) (simp add: record_score_def)

lemma core_step_grows: "core_step qs row field st = Inr st' \<Longrightarrow> set (fst st) \<subseteq> set (fst st')"
  by (auto simp: core_step_def fst_record_score split: sum.splits option.splits if_splits)

lemma elective_step_grows: "elective_step qs row field st = Inr st' \<Longrightarrow> set (fst st) \<subseteq> set (fst st')"
  by (auto simp: elective_step_def fst_record_score split: sum.splits option.splits if_splits)

lemma clean_numeric_1: "clean_numeric ''1'' = Inr (Some 1)"
  by (simp add: clean_numeric_def matches_numeric_def strip_def is_space_def is_digit_def
      digits_val_def digit_val_def float_of_nat_def ord_def)

lemma clean_numeric_8: "clean_numeric ''8'' = Inr (Some 8)"
  by (simp add: clean_numeric_def matches_numeric_def strip_def is_space_def is_digit_def
      digits_val_def digit_val_def float_of_nat_def ord_def)

text \<open>
  Claim C7, amended. A core field with value \<open>1\<close> is recorded with the normalized score
  100 and a core field with value \<open>8\<close> with the normalized score 12.5, the value of
  \<open>(9 - 8) / 8 * 100\<close>. For a finished record these rows are among the long-format rows
  once the record has been processed.
\<close>

theorem core_rank_endpoints:
  "(dict_get row field [] = ''1'' \<longrightarrow>
      core_step questions row field st =
        Inr (record_score core_rank (dict_get row ''ResponseId'' [])
               (parse_course_name (dict_get questions field [])) 1 100 st)) \<and>
   (dict_get row field [] = ''8'' \<longrightarrow>
      core_step questions row field st =
        Inr (record_score core_rank (dict_get row ''ResponseId'' [])
               (parse_course_name (dict_get questions field [])) 8 (25 / 2) st)) \<and>
   (is_finished row \<and> field \<in> set (core_fields questions) \<and>
    row_step questions row st = Inr st' \<longrightarrow>
      (dict_get row field [] = ''1'' \<longrightarrow>
         \<lparr>response_id = dict_get row ''ResponseId'' [],
          lr_course = parse_course_name (dict_get questions field []),
          source_type = core_rank, response_value = 1, normalized_score = 100\<rparr> \<in> set (fst st')) \<and>
      (dict_get row field [] = ''8'' \<longrightarrow>
         \<lparr>response_id = dict_get row ''ResponseId'' [],
          lr_course = parse_course_name (dict_get questions field []),
          source_type = core_rank, response_value = 8, normalized_score = 25 / 2\<rparr> \<in> set (fst st')))"
proof -
  have one: "core_step questions row field s =
        Inr (record_score core_rank (dict_get row ''ResponseId'' [])
               (parse_course_name (dict_get questions field [])) 1 100 s)"
    if "dict_get row field [] = ''1''" for s
    using that by (simp add: core_step_def clean_numeric_1 core_score_def)
  have eight: "core_step questions row field s =
        Inr (record_score core_rank (dict_get row ''ResponseId'' [])
               (parse_course_name (dict_get questions field [])) 8 (25 / 2) s)"
    if "dict_get row field [] = ''8''" for s
    using that by (simp add: core_step_def clean_numeric_8 core_score_def)
  have row: "r \<in> set (fst st')"
    if fin: "is_finished row" and f: "field \<in> set (core_fields questions)"
      and rs: "row_step questions row st = Inr st'"
      and step: "\<And>s. core_step questions row field s = Inr (record_score core_rank rid c v sc s)"
      and r: "r = \<lparr>response_id = rid, lr_course = c, source_type = core_rank, response_value = v,
                    normalized_score = sc\<rparr>"
    for r rid c v sc
  proof -
    from rs fin obtain mid where
      core: "for_each (core_step questions row) (core_fields questions) st = Inr mid"
      and elec: "for_each (elective_step questions row) elective_fields mid = Inr st'"
      by (auto simp: row_step_def split: sum.splits)
    from for_each_reaches [OF f core] obtain s1 s2 where
      b: "core_step questions row field s1 = Inr s2"
      and rest: "for_each (core_step questions row)
                   (tl (dropWhile (\<lambda>y. y \<noteq> field) (core_fields questions))) s2 = Inr mid"
      by blast
    from b step [of s1] have "s2 = record_score core_rank rid c v sc s1" by simp
    then have "r \<in> set (fst s2)" by (simp add: fst_record_score r)
    moreover have "set (fst s2) \<subseteq> set (fst mid)"
      using rest by (rule for_each_grows [rotated]) (rule core_step_grows)
    moreover have "set (fst mid) \<subseteq> set (fst st')"
      using elec by (rule for_each_grows [rotated]) (rule elective_step_grows)
    ultimately show ?thesis by blast
  qed
  show ?thesis
  proof (intro conjI impI)
    show "core_step questions row field st =
        Inr (record_score core_rank (dict_get row ''ResponseId'' [])
               (parse_course_name (dict_get questions field [])) 1 100 st)"
      if "dict_get row field [] = ''1''" using that by (rule one)
    show "core_step questions row field st =
        Inr (record_score core_rank (dict_get row ''ResponseId'' [])
               (parse_course_name (dict_get questions field [])) 8 (25 / 2) st)"
      if "dict_get row field [] = ''8''" using that by (rule eight)
    show "\<lparr>response_id = dict_get row ''ResponseId'' [],
          lr_course = parse_course_name (dict_get questions field []),
          source_type = core_rank, response_value = 1, normalized_score = 100\<rparr> \<in> set (fst st')"
      if "is_finished row \<and> field \<in> set (core_fields questions) \<and>
          row_step questions row st = Inr st'" "dict_get row field [] = ''1''"
      using that one by (intro row [where v = 1 and sc = 100]) auto
    show "\<lparr>response_id = dict_get row ''ResponseId'' [],
          lr_course = parse_course_name (dict_get questions field []),
          source_type = core_rank, response_value = 8, normalized_score = 25 / 2\<rparr> \<in> set (fst st')"
      if "is_finished row \<and> field \<in> set (core_fields questions) \<and>
          row_step questions row st = Inr st'" "dict_get row field [] = ''8''"
      using that eight by (intro row [where v = 8 and sc = "25 / 2"]) auto
  qed
qed

lemma agg_invD:
  assumes "agg_inv (lrs, cs)"
  shows "distinct (map fst cs)" and "fst ` set cs = lr_course ` set lrs"
    and "c \<in> fst ` set cs \<Longrightarrow>
           map_of cs c = Some (scores_of core_rank c lrs, scores_of elective_rating c lrs)"
  using assms unfolding agg_inv_def by (simp, simp, simp)

lemma agg_inv_lookup:
  assumes "agg_inv (lrs, cs)"
  shows "dict_get cs c ([], []) = (scores_of core_rank c lrs, scores_of elective_rating c lrs)"
proof (cases "c \<in> fst ` set cs")
  case True
  from agg_invD(3) [OF assms True] show ?thesis by (simp add: dict_get_def)
next
  case False
  then have "map_of cs c = None" by (simp add: map_of_eq_None_iff)
  moreover from False agg_invD(2) [OF assms] have "c \<notin> lr_course ` set lrs" by simp
  then have "filter (\<lambda>r. lr_course r = c \<and> source_type r = k) lrs = []" for k
    by (auto simp: filter_empty_conv)
  ultimately show ?thesis by (simp add: dict_get_def scores_of_def)
qed

lemma agg_inv_record_score:
  assumes "agg_inv st"
  shows "agg_inv (record_score kind rid c v s st)"
proof -
  obtain lrs cs where st: "st = (lrs, cs)" by (cases st)
  define new where "new = \<lparr>response_id = rid, lr_course = c, source_type = kind,
                             response_value = v, normalized_score = s\<rparr>"
  define val where "val = (if kind = core_rank
       then (scores_of core_rank c lrs @ [s], scores_of elective_rating c lrs)
       else (scores_of core_rank c lrs, scores_of elective_rating c lrs @ [s]))"
  from assms have inv: "agg_inv (lrs, cs)" by (simp add: st)
  have rs: "record_score kind rid c v s st = (lrs @ [new], AList.update c val cs)"
    by (simp add: st record_score_def append_score_def agg_inv_lookup [OF inv] new_def val_def)
  note d = agg_invD(1) [OF inv] and k = agg_invD(2) [OF inv] and m = agg_invD(3) [OF inv]
  have d': "distinct (map fst (AList.update c val cs))" using d by (rule distinct_update)
  have "lr_course new = c" by (simp add: new_def)
  then have k': "fst ` set (AList.update c val cs) = lr_course ` set (lrs @ [new])"
    unfolding dom_update k by auto
  have same: "scores_of k' c' (lrs @ [new]) = scores_of k' c' lrs" if "c' \<noteq> c" for k' c'
    using that by (simp add: scores_of_def new_def)
  have "kind = core_rank \<or> kind = elective_rating" by (cases kind) simp_all
  then have here: "val = (scores_of core_rank c (lrs @ [new]), scores_of elective_rating c (lrs @ [new]))"
    by (auto simp: val_def scores_of_def new_def)
  have m': "map_of (AList.update c val cs) c' =
      Some (scores_of core_rank c' (lrs @ [new]), scores_of elective_rating c' (lrs @ [new]))"
    if "c' \<in> fst ` set (AList.update c val cs)" for c'
  proof (cases "c' = c")
    case True
    then show ?thesis by (simp add: update_conv' here)
  next
    case False
    with that have "c' \<in> fst ` set cs" unfolding dom_update by simp
    from m [OF this] False show ?thesis by (simp add: update_conv' same)
  qed
  show ?thesis unfolding rs agg_inv_def prod.case using d' k' m' by blast
qed

lemma agg_inv_core_step: "agg_inv st \<Longrightarrow> core_step qs row field st = Inr st' \<Longrightarrow> agg_inv st'"
  by (auto simp: core_step_def agg_inv_record_score split: sum.splits option.splits if_splits)

lemma agg_inv_elective_step:
  "agg_inv st \<Longrightarrow> elective_step qs row field st = Inr st' \<Longrightarrow> agg_inv st'"
  by (auto simp: elective_step_def agg_inv_record_score split: sum.splits option.splits if_splits)

lemma agg_inv_row_step:
  assumes "agg_inv st" "row_step qs row st = Inr st'"
  shows "agg_inv st'"
proof (cases "is_finished row")
  case False
  with assms show ?thesis by (simp add: row_step_def)
next
  case True
  with assms(2) obtain mid where
    core: "for_each (core_step qs row) (core_fields qs) st = Inr mid"
    and elec: "for_each (elective_step qs row) elective_fields mid = Inr st'"
    by (auto simp: row_step_def split: sum.splits)
  have "agg_inv mid"
    using assms(1) core by (rule for_each_inv [rotated]) (rule agg_inv_core_step)
  then show ?thesis
    using elec by (rule for_each_inv [rotated]) (rule agg_inv_elective_step)
qed

lemma agg_inv_aggregate:
  assumes "aggregate qs rows = Inr st"
  shows "agg_inv st"
proof -
  have "agg_inv ([], [])" by (simp add: agg_inv_def)
  then show ?thesis
    using assms unfolding aggregate_def by (rule for_each_inv [rotated]) (rule agg_inv_row_step)
qed

lemma agg_inv_nonempty:
  assumes "agg_inv (lrs, cs)" "c \<in> fst ` set cs"
  shows "pooled c lrs \<noteq> []"
proof -
  from assms(2) agg_invD(2) [OF assms(1)] obtain r where r: "r \<in> set lrs" "lr_course r = c"
    by auto
  have "source_type r = core_rank \<or> source_type r = elective_rating"
    by (cases "source_type r") simp_all
  then show ?thesis
  proof
    assume "source_type r = core_rank"
    with r have "filter (\<lambda>r. lr_course r = c \<and> source_type r = core_rank) lrs \<noteq> []"
      by (auto simp: filter_empty_conv)
    then show ?thesis unfolding pooled_def scores_of_def by simp
  next
    assume "source_type r = elective_rating"
    with r have "filter (\<lambda>r. lr_course r = c \<and> source_type r = elective_rating) lrs \<noteq> []"
      by (auto simp: filter_empty_conv)
    then show ?thesis unfolding pooled_def scores_of_def by simp
  qed
qed

lemma ranking_entry_courses:
  "map course (concat (map ranking_entry cs)) =
     map fst (filter (\<lambda>(c, core_vals, elec_vals). core_vals @ elec_vals \<noteq> []) cs)"
  by (induction cs) (auto simp: ranking_entry_def Let_def)

lemma ranking_entry_single:
  "r \<in> set (ranking_entry item) \<Longrightarrow>
     \<exists>core_vals elec_vals. item = (course r, core_vals, elec_vals) \<and>
        overall_score r = fmean (core_vals @ elec_vals) \<and>
        num_responses r = length (core_vals @ elec_vals)"
  by (cases item) (auto simp: ranking_entry_def Let_def split: if_splits)

lemma ranking_entry_values:
  assumes "r \<in> set (concat (map ranking_entry cs))"
  shows "\<exists>core_vals elec_vals. (course r, core_vals, elec_vals) \<in> set cs \<and>
        overall_score r = fmean (core_vals @ elec_vals) \<and>
        num_responses r = length (core_vals @ elec_vals)"
proof -
  from assms obtain item where "item \<in> set cs" "r \<in> set (ranking_entry item)" by auto
  with ranking_entry_single [of r item] show ?thesis by metis
qed

section \<open>Ranking\<close>

lemma sort_key_of_less:
  "sort_key_of a < sort_key_of b \<Longrightarrow> ranks_before a b"
  unfolding sort_key_of_def ranks_before_def less_prod_def' by auto

lemma ranking_rows_sorted:
  assumes "distinct (map course (concat (map ranking_entry cs)))"
    and "i < j" and "j < length (ranking_rows cs)"
  shows "ranks_before (snd (ranking_rows cs ! i)) (snd (ranking_rows cs ! j))"
proof -
  define S where "S = sort_key sort_key_of (concat (map ranking_entry cs))"
  have R: "ranking_rows cs = List.enumerate 1 S" by (simp add: ranking_rows_def S_def)
  from assms(3) have j: "j < length S" by (simp add: R)
  with assms(2) have i: "i < length S" by simp
  from assms(1) have "distinct (concat (map ranking_entry cs))"
    and "inj_on course (set (concat (map ranking_entry cs)))"
    by (simp_all add: distinct_map)
  then have dS: "distinct S" and inj: "inj_on course (set S)" by (simp_all add: S_def)
  have "inj_on sort_key_of (set S)"
  proof (rule inj_onI)
    fix a b assume a: "a \<in> set S" and b: "b \<in> set S" and e: "sort_key_of a = sort_key_of b"
    from e have "course a = course b" by (simp add: sort_key_of_def)
    with inj a b show "a = b" by (auto dest: inj_onD)
  qed
  with dS have "distinct (map sort_key_of S)" by (simp add: distinct_map)
  moreover have "sorted (map sort_key_of S)" unfolding S_def by (rule sorted_sort_key)
  ultimately have "sorted_wrt (<) (map sort_key_of S)" by (simp add: strict_sorted_iff)
  then have "map sort_key_of S ! i < map sort_key_of S ! j"
    using assms(2) j by (simp add: sorted_wrt_iff_nth_less)
  then have "sort_key_of (S ! i) < sort_key_of (S ! j)" using i j by simp
  then have "ranks_before (S ! i) (S ! j)" by (rule sort_key_of_less)
  then show ?thesis using i j by (simp add: R nth_enumerate_eq)
qed

text \<open>
  The double arithmetic of lines 157 and 175 is exact on the ranks and ratings that pass
  the range checks, so that \<open>core_score\<close> and \<open>elective_score\<close> are the doubles the source
  stores.
\<close>

lemma core_score_exact:
  assumes "1 \<le> r" "r \<le> 8"
  shows "round_double (round_double (of_int (9 - r) / 8) * 100) = core_score r"
proof -
  have a: "round_double (of_int (9 - r) * 2 powi (- 3)) = of_int (9 - r) * 2 powi (- 3)"
    by (rule round_double_exact) (use assms in simp_all)
  have b: "round_double (of_int (25 * (9 - r)) * 2 powi (- 1)) = of_int (25 * (9 - r)) * 2 powi (- 1)"
    by (rule round_double_exact) (use assms in simp_all)
  have c: "(of_int (9 - r) / 8 :: rat) = of_int (9 - r) * 2 powi (- 3)"
    by (simp add: power_int_minus_divide)
  have d: "of_int (9 - r) * 2 powi (- 3) * (100::rat) = of_int (25 * (9 - r)) * 2 powi (- 1)"
    by (simp add: power_int_minus_divide)
  show ?thesis unfolding c a d b by (simp add: core_score_def power_int_minus_divide)
qed

lemma elective_score_exact:
  assumes "1 \<le> v" "v \<le> 5"
  shows "round_double (round_double (of_int (v - 1) / 4) * 100) = elective_score v"
proof (cases "v = 1")
  case True
  then show ?thesis by (simp add: round_double_def elective_score_def)
next
  case False
  with assms have v: "2 \<le> v" by simp
  have a: "round_double (of_int (v - 1) * 2 powi (- 2)) = of_int (v - 1) * 2 powi (- 2)"
    by (rule round_double_exact) (use assms v in simp_all)
  have b: "round_double (of_int (25 * (v - 1)) * 2 powi 0) = of_int (25 * (v - 1)) * 2 powi 0"
    by (rule round_double_exact) (use assms v in simp_all)
  have c: "(of_int (v - 1) / 4 :: rat) = of_int (v - 1) * 2 powi (- 2)"
    by (simp add: power_int_minus_divide)
  have d: "of_int (v - 1) * 2 powi (- 2) * (100::rat) = of_int (25 * (v - 1)) * 2 powi 0"
    by (simp add: power_int_minus_divide)
  show ?thesis unfolding c a d b by (simp add: elective_score_def)
qed

lemma core_score_grid:
  "1 \<le> r \<Longrightarrow> r \<le> 8 \<Longrightarrow> \<exists>k::int. 0 \<le> k \<and> k \<le> 8 \<and> core_score r = of_int k * 25 / 2"
proof -
  assume "1 \<le> r" "r \<le> 8"
  then have "0 \<le> 9 - r \<and> 9 - r \<le> 8" by simp
  moreover have "core_score r = of_int (9 - r) * 25 / 2" by (simp add: core_score_def)
  ultimately show ?thesis by blast
qed

lemma elective_score_grid:
  "1 \<le> v \<Longrightarrow> v \<le> 5 \<Longrightarrow> \<exists>k::int. 0 \<le> k \<and> k \<le> 8 \<and> elective_score v = of_int k * 25 / 2"
proof -
  assume "1 \<le> v" "v \<le> 5"
  then have "0 \<le> 2 * (v - 1) \<and> 2 * (v - 1) \<le> 8" by simp
  moreover have "elective_score v = of_int (2 * (v - 1)) * 25 / 2" by (simp add: elective_score_def)
  ultimately show ?thesis by blast
qed

lemma grid_core_step:
  assumes "\<forall>r\<in>set (fst st). \<exists>k::int. 0 \<le> k \<and> k \<le> 8 \<and> normalized_score r = of_int k * 25 / 2"
    and "core_step qs row field st = Inr st'"
  shows "\<forall>r\<in>set (fst st'). \<exists>k::int. 0 \<le> k \<and> k \<le> 8 \<and> normalized_score r = of_int k * 25 / 2"
proof (cases "clean_numeric (dict_get row field [])")
  case (Inl e)
  with assms(2) show ?thesis by (simp add: core_step_def)
next
  case (Inr v)
  show ?thesis
  proof (cases v)
    case None
    with Inr assms show ?thesis by (simp add: core_step_def)
  next
    case (Some rank)
    show ?thesis
    proof (cases "rank < 1 \<or> rank > 8")
      case True
      with Inr Some assms show ?thesis by (auto simp: core_step_def)
    next
      case False
      then have "1 \<le> rank" "rank \<le> 8" by simp_all
      from core_score_grid [OF this] obtain k :: int where
        k: "0 \<le> k" "k \<le> 8" "core_score rank = of_int k * 25 / 2" by blast
      from Inr Some False assms(2) have
        "fst st' = fst st @ [\<lparr>response_id = dict_get row ''ResponseId'' [],
            lr_course = parse_course_name (dict_get qs field []), source_type = core_rank,
            response_value = rank, normalized_score = core_score rank\<rparr>]"
        by (auto simp: core_step_def fst_record_score)
      with assms(1) k show ?thesis by auto
    qed
  qed
qed

lemma grid_elective_step:
  assumes "\<forall>r\<in>set (fst st). \<exists>k::int. 0 \<le> k \<and> k \<le> 8 \<and> normalized_score r = of_int k * 25 / 2"
    and "elective_step qs row field st = Inr st'"
  shows "\<forall>r\<in>set (fst st'). \<exists>k::int. 0 \<le> k \<and> k \<le> 8 \<and> normalized_score r = of_int k * 25 / 2"
proof (cases "clean_numeric (dict_get row field [])")
  case (Inl e)
  with assms(2) show ?thesis by (simp add: elective_step_def)
next
  case (Inr v)
  show ?thesis
  proof (cases v)
    case None
    with Inr assms show ?thesis by (simp add: elective_step_def)
  next
    case (Some rating)
    show ?thesis
    proof (cases "rating < 1 \<or> rating > 5")
      case True
      with Inr Some assms show ?thesis by (auto simp: elective_step_def)
    next
      case False
      then have "1 \<le> rating" "rating \<le> 5" by simp_all
      from elective_score_grid [OF this] obtain k :: int where
        k: "0 \<le> k" "k \<le> 8" "elective_score rating = of_int k * 25 / 2" by blast
      from Inr Some False assms(2) have
        "fst st' = fst st @ [\<lparr>response_id = dict_get row ''ResponseId'' [],
            lr_course = parse_course_name (dict_get qs field []), source_type = elective_rating,
            response_value = rating, normalized_score = elective_score rating\<rparr>]"
        by (auto simp: elective_step_def fst_record_score)
      with assms(1) k show ?thesis by auto
    qed
  qed
qed

lemma grid_row_step:
  assumes "\<forall>r\<in>set (fst st). \<exists>k::int. 0 \<le> k \<and> k \<le> 8 \<and> normalized_score r = of_int k * 25 / 2"
    and "row_step qs row st = Inr st'"
  shows "\<forall>r\<in>set (fst st'). \<exists>k::int. 0 \<le> k \<and> k \<le> 8 \<and> normalized_score r = of_int k * 25 / 2"
proof (cases "is_finished row")
  case False
  with assms show ?thesis by (simp add: row_step_def)
next
  case True
  with assms(2) obtain mid where
    core: "for_each (core_step qs row) (core_fields qs) st = Inr mid"
    and elec: "for_each (elective_step qs row) elective_fields mid = Inr st'"
    by (auto simp: row_step_def split: sum.splits)
  have "\<forall>r\<in>set (fst mid). \<exists>k::int. 0 \<le> k \<and> k \<le> 8 \<and> normalized_score r = of_int k * 25 / 2"
    using assms(1) core by (rule for_each_inv [rotated]) (rule grid_core_step)
  then show ?thesis
    using elec by (rule for_each_inv [rotated]) (rule grid_elective_step)
qed

lemma grid_aggregate:
  assumes "aggregate qs rows = Inr st"
  shows "\<forall>r\<in>set (fst st). \<exists>k::int. 0 \<le> k \<and> k \<le> 8 \<and> normalized_score r = of_int k * 25 / 2"
proof -
  have "\<forall>r\<in>set (fst (([], []) :: agg_state)).
      \<exists>k::int. 0 \<le> k \<and> k \<le> 8 \<and> normalized_score r = of_int k * 25 / 2" by simp
  then show ?thesis
    using assms unfolding aggregate_def by (rule for_each_inv [rotated]) (rule grid_row_step)
qed

lemma sum_grid:
  "\<forall>s\<in>set xs. \<exists>k::int. 0 \<le> k \<and> k \<le> 8 \<and> s = of_int k * 25 / 2 \<Longrightarrow>
     \<exists>K::int. 0 \<le> K \<and> K \<le> 8 * int (length xs) \<and> sum_list xs = of_int K * 25 / (2::rat)"
proof (induction xs)
  case Nil
  have "(0::int) \<le> 0 \<and> 0 \<le> 8 * int (length ([]::rat list)) \<and>
      sum_list ([]::rat list) = of_int 0 * 25 / 2" by simp
  then show ?case by blast
next
  case (Cons x xs)
  from Cons.prems obtain k :: int where k: "0 \<le> k" "k \<le> 8" "x = of_int k * 25 / 2" by auto
  from Cons.prems have "\<forall>s\<in>set xs. \<exists>k::int. 0 \<le> k \<and> k \<le> 8 \<and> s = of_int k * 25 / 2" by simp
  from Cons.IH [OF this] obtain K :: int where
    K: "0 \<le> K" "K \<le> 8 * int (length xs)" "sum_list xs = of_int K * 25 / 2" by blast
  have "0 \<le> k + K \<and> k + K \<le> 8 * int (length (x # xs)) \<and>
      sum_list (x # xs) = of_int (k + K) * 25 / 2"
    using k K by (simp add: field_simps)
  then show ?case by blast
qed

lemma fmean_grid:
  assumes grid: "\<forall>s\<in>set xs. \<exists>k::int. 0 \<le> k \<and> k \<le> 8 \<and> s = of_int k * 25 / 2"
    and ne: "xs \<noteq> []" and len: "length xs < 2 ^ 45"
  shows "fmean xs = round_double (sum_list xs / of_nat (length xs))"
    and "\<bar>fmean xs - sum_list xs / of_nat (length xs)\<bar> \<le> 1 / 2 ^ 47"
proof -
  define n where "n = length xs"
  from ne have n0: "0 < n" by (simp add: n_def)
  from len have n45: "int n < 2 ^ 45"
    unfolding n_def by (metis of_nat_less_iff of_nat_numeral of_nat_power)
  from sum_grid [OF grid] obtain K :: int where
    K: "0 \<le> K" "K \<le> 8 * int n" "sum_list xs = of_int K * 25 / 2" unfolding n_def by blast
  have s: "sum_list xs = of_int (25 * K) * 2 powi (- 1)"
    using K(3) by (simp add: power_int_minus_divide)
  have fs: "fsum xs = sum_list xs"
  proof (cases "K = 0")
    case True
    with K(3) show ?thesis by (simp add: fsum_def round_double_def)
  next
    case False
    with K(1) have "0 < 25 * K" by simp
    moreover have "25 * K < 2 ^ 53"
    proof -
      have "25 * K \<le> 200 * int n" using K(2) by simp
      also have "\<dots> < 200 * 2 ^ 45" using n45 by simp
      also have "\<dots> \<le> (2::int) ^ 53" by simp
      finally show ?thesis .
    qed
    ultimately have "round_double (of_int (25 * K) * 2 powi (- 1)) = of_int (25 * K) * 2 powi (- 1)"
      by (rule round_double_exact) simp
    then show ?thesis by (simp only: fsum_def s)
  qed
  have fn: "round_double (of_nat n) = of_nat n"
  proof -
    have "0 < int n" using n0 by simp
    moreover have "int n < 2 ^ 53"
    proof -
      have "(2::int) ^ 45 \<le> 2 ^ 53" by simp
      with n45 show ?thesis by linarith
    qed
    ultimately have "round_double (of_int (int n) * 2 powi 0) = of_int (int n) * 2 powi 0"
      by (rule round_double_exact) simp
    then show ?thesis by simp
  qed
  show eq: "fmean xs = round_double (sum_list xs / of_nat (length xs))"
    by (simp only: fmean_def fs fn n_def [symmetric])
  define m where "m = sum_list xs / of_nat n"
  have npos: "(0::rat) < of_nat n" using n0 by simp
  have m0: "0 \<le> m" using K(1,3) npos by (simp add: m_def)
  have "sum_list xs \<le> 100 * of_nat n"
  proof -
    have "(of_int K :: rat) \<le> of_int (8 * int n)" using K(2) by (simp only: of_int_le_iff)
    then have "(of_int K :: rat) \<le> 8 * of_nat n" by simp
    with K(3) show ?thesis by simp
  qed
  then have m100: "m \<le> 100" using npos by (simp add: m_def pos_divide_le_eq)
  have "\<bar>round_double m - m\<bar> \<le> 1 / 2 ^ 47"
  proof (cases "m = 0")
    case True
    then show ?thesis by (simp add: round_double_def)
  next
    case False
    with m0 have "0 < m" by simp
    moreover from m100 have "m < 128" by simp
    ultimately show ?thesis by (rule round_double_error)
  qed
  then show "\<bar>fmean xs - sum_list xs / of_nat (length xs)\<bar> \<le> 1 / 2 ^ 47"
    unfolding eq m_def n_def .
qed

lemma pooled_scores: "set (pooled c long_rows) \<subseteq> normalized_score ` set long_rows"
  by (auto simp: pooled_def scores_of_def)

text \<open>
  Claim C9. When the aggregation returns, the courses of the ranking are the courses of
  the long-format rows, each once: the courses with at least one valid score. The overall
  score of a course is the mean of its pooled core and elective scores as
  \<^verbatim>\<open>statistics.fmean\<close> computes it: the rounded sum divided by the rounded count, rounded.
  For fewer than \<open>2\<close> to the 45 scores no rounding but the last takes effect: the overall
  score is the double nearest to the arithmetic mean and differs from it by at most
  \<open>2\<close> to the \<open>- 47\<close>. The response count is the number of pooled scores. The ranks are
  1, 2, ... in list order, and a row that stands before another has the higher overall
  score, or the same score and more responses, or the same score and count and the
  smaller name; of two rows with different names one always comes before the other.
\<close>

theorem course_ranking:
  assumes "aggregate questions rows = Inr (long_rows, cs)"
  shows "set (map (\<lambda>kr. course (snd kr)) (ranking_rows cs)) = lr_course ` set long_rows \<and>
    distinct (map (\<lambda>kr. course (snd kr)) (ranking_rows cs)) \<and>
    (\<forall>kr\<in>set (ranking_rows cs).
       pooled (course (snd kr)) long_rows \<noteq> [] \<and>
       overall_score (snd kr) =
         round_double (round_double (sum_list (pooled (course (snd kr)) long_rows)) /
           round_double (of_nat (length (pooled (course (snd kr)) long_rows)))) \<and>
       (length (pooled (course (snd kr)) long_rows) < 2 ^ 45 \<longrightarrow>
          overall_score (snd kr) =
            round_double (sum_list (pooled (course (snd kr)) long_rows) /
              of_nat (length (pooled (course (snd kr)) long_rows))) \<and>
          \<bar>overall_score (snd kr) -
             sum_list (pooled (course (snd kr)) long_rows) /
               of_nat (length (pooled (course (snd kr)) long_rows))\<bar> \<le> 1 / 2 ^ 47) \<and>
       num_responses (snd kr) = length (pooled (course (snd kr)) long_rows)) \<and>
    map fst (ranking_rows cs) = [1..<Suc (length (ranking_rows cs))] \<and>
    (\<forall>i j. i < j \<and> j < length (ranking_rows cs) \<longrightarrow>
       ranks_before (snd (ranking_rows cs ! i)) (snd (ranking_rows cs ! j))) \<and>
    (\<forall>a b. course a \<noteq> course b \<longrightarrow> ranks_before a b \<or> ranks_before b a)"
proof -
  define E where "E = concat (map ranking_entry cs)"
  define S where "S = sort_key sort_key_of E"
  have R: "ranking_rows cs = List.enumerate 1 S" by (simp add: ranking_rows_def S_def E_def)
  have inv: "agg_inv (long_rows, cs)" using assms by (rule agg_inv_aggregate)
  note d = agg_invD(1) [OF inv] and k = agg_invD(2) [OF inv]
  have item: "core_vals = scores_of core_rank c long_rows \<and>
              elec_vals = scores_of elective_rating c long_rows \<and> core_vals @ elec_vals \<noteq> []"
    if "(c, core_vals, elec_vals) \<in> set cs" for c core_vals elec_vals
  proof -
    from that have c: "c \<in> fst ` set cs" by force
    from that d have "map_of cs c = Some (core_vals, elec_vals)" by simp
    with agg_invD(3) [OF inv c] have
      "core_vals = scores_of core_rank c long_rows \<and> elec_vals = scores_of elective_rating c long_rows"
      by simp
    with agg_inv_nonempty [OF inv c] show ?thesis by (simp add: pooled_def)
  qed
  have "filter (\<lambda>(c, core_vals, elec_vals). core_vals @ elec_vals \<noteq> []) cs = cs"
    unfolding filter_id_conv using item by auto
  then have courses: "map course E = map fst cs"
    unfolding E_def ranking_entry_courses by simp
  have setS: "set S = set E" by (simp add: S_def)
  have mS: "map (\<lambda>kr. course (snd kr)) (ranking_rows cs) = map course S"
    unfolding R by (simp flip: map_map [unfolded comp_def])
  have dE: "distinct (map course E)" using d courses by simp
  then have "distinct E" and injE: "inj_on course (set E)" by (simp_all add: distinct_map)
  then have dS: "distinct (map course S)" by (simp add: distinct_map S_def)
  have "set (map course S) = set (map course E)" by (simp add: setS)
  also have "\<dots> = lr_course ` set long_rows" using courses k by simp
  finally have sets: "set (map course S) = lr_course ` set long_rows" .
  have grid: "\<forall>s\<in>set (pooled c long_rows). \<exists>k::int. 0 \<le> k \<and> k \<le> 8 \<and> s = of_int k * 25 / 2" for c
    using grid_aggregate [OF assms] pooled_scores [of c long_rows] by fastforce
  have vals: "pooled (course r) long_rows \<noteq> [] \<and>
       overall_score r = fmean (pooled (course r) long_rows) \<and>
       num_responses r = length (pooled (course r) long_rows)" if "r \<in> set S" for r
  proof -
    from that have "r \<in> set (concat (map ranking_entry cs))" by (simp add: setS E_def)
    from ranking_entry_values [OF this] obtain core_vals elec_vals where
      m: "(course r, core_vals, elec_vals) \<in> set cs"
      and o: "overall_score r = fmean (core_vals @ elec_vals)"
      and n: "num_responses r = length (core_vals @ elec_vals)" by blast
    from item [OF m] have "core_vals @ elec_vals = pooled (course r) long_rows"
      and "core_vals @ elec_vals \<noteq> []" by (auto simp: pooled_def)
    with o n show ?thesis by simp
  qed
  show ?thesis
  proof (intro conjI allI impI ballI)
    show "set (map (\<lambda>kr. course (snd kr)) (ranking_rows cs)) = lr_course ` set long_rows"
      unfolding mS by (rule sets)
    show "distinct (map (\<lambda>kr. course (snd kr)) (ranking_rows cs))"
      unfolding mS by (rule dS)
    show "map fst (ranking_rows cs) = [1..<Suc (length (ranking_rows cs))]"
      by (simp add: R)
  next
    fix kr assume "kr \<in> set (ranking_rows cs)"
    then have "snd kr \<in> snd ` set (List.enumerate 1 S)" unfolding R by (rule imageI)
    then have "snd kr \<in> set (map snd (List.enumerate 1 S))" by (simp only: set_map)
    then have "snd kr \<in> set S" by (simp only: map_snd_enumerate)
    note v = vals [OF this]
    from v show "pooled (course (snd kr)) long_rows \<noteq> []" by simp
    from v show "overall_score (snd kr) =
         round_double (round_double (sum_list (pooled (course (snd kr)) long_rows)) /
           round_double (of_nat (length (pooled (course (snd kr)) long_rows))))"
      by (simp add: fmean_def fsum_def)
    from v have ne: "pooled (course (snd kr)) long_rows \<noteq> []"
      and o: "overall_score (snd kr) = fmean (pooled (course (snd kr)) long_rows)" by simp_all
    show "overall_score (snd kr) =
            round_double (sum_list (pooled (course (snd kr)) long_rows) /
              of_nat (length (pooled (course (snd kr)) long_rows)))"
      if "length (pooled (course (snd kr)) long_rows) < 2 ^ 45"
      unfolding o using grid ne that by (rule fmean_grid(1))
    show "\<bar>overall_score (snd kr) -
             sum_list (pooled (course (snd kr)) long_rows) /
               of_nat (length (pooled (course (snd kr)) long_rows))\<bar> \<le> 1 / 2 ^ 47"
      if "length (pooled (course (snd kr)) long_rows) < 2 ^ 45"
      unfolding o using grid ne that by (rule fmean_grid(2))
    from v show "num_responses (snd kr) = length (pooled (course (snd kr)) long_rows)" by simp
  next
    fix i j assume "i < j \<and> j < length (ranking_rows cs)"
    then show "ranks_before (snd (ranking_rows cs ! i)) (snd (ranking_rows cs ! j))"
      using ranking_rows_sorted [of cs i j] dE by (simp add: E_def)
  next
    fix a b :: ranking_row assume "course a \<noteq> course b"
    then show "ranks_before a b \<or> ranks_before b a"
      unfolding ranks_before_def by (metis linorder_neqE_linordered_idom linorder_neqE_nat linorder_less_linear)
  qed
qed

lemmas numeric_defs = clean_numeric_def matches_numeric_def strip_def is_space_def is_digit_def
  digits_val_def digit_val_def float_of_nat_def ord_def

lemma ex_names:
  "parse_course_name ''Rank the core courses - Tax Law'' = ''Tax Law''"
  "parse_course_name ''Rank the core courses - Audit'' = ''Audit''"
  "parse_course_name ''Ethics'' = ''Ethics''"
  by (simp_all add: parse_course_name_def startswith_def py_split_def split_loop.simps
        strip_def is_space_def ord_def)

lemma ex_numbers:
  "clean_numeric ''2'' = Inr (Some 2)" "clean_numeric ''5'' = Inr (Some 5)"
  "clean_numeric ''9'' = Inr (Some 9)" "clean_numeric ''0'' = Inr (Some 0)"
  "clean_numeric ''x'' = Inr None" "clean_numeric [] = Inr None"
  by (simp_all add: numeric_defs)

lemma ex_aggregate: "aggregate example_questions example_records = Inr (example_long_rows, example_scores)"
  by (simp add: aggregate_def example_questions_def example_records_def example_long_rows_def
      example_scores_def row_step_def is_finished_def core_fields_def elective_fields_def
      startswith_def core_step_def elective_step_def dict_get_def ex_names ex_numbers
      record_score_def append_score_def core_score_def elective_score_def strip_def is_space_def ord_def)

lemma fmean_100: "fmean [100] = 100"
  by (simp add: fmean_def fsum_def float_defs)

lemma fmean_175: "fmean [175 / 2] = 175 / 2"
  by (simp add: fmean_def fsum_def float_defs)

lemma fmean_three: "fmean [175 / 2, 100, 100] = 6743671317026133 / 70368744177664"
  by (simp add: fmean_def fsum_def float_defs)

lemma ex_ranking:
  "map (\<lambda>kr. (fst kr, course (snd kr), overall_score (snd kr), num_responses (snd kr)))
     (ranking_rows example_scores) =
   [(1, ''Ethics'', 100, 1), (2, ''Audit'', 175 / 2, 1), (3, ''Tax Law'', 175 / 2, 1)]"
  by (simp add: ranking_rows_def example_scores_def ranking_entry_def sort_key_of_def fmean_100
      fmean_175 enumerate_eq_zip Let_def)

lemma rounding_aggregate:
  "aggregate rounding_questions rounding_records = Inr (rounding_long_rows, rounding_scores)"
  by (simp add: aggregate_def rounding_questions_def rounding_records_def rounding_long_rows_def
      rounding_scores_def row_step_def is_finished_def core_fields_def elective_fields_def
      startswith_def core_step_def elective_step_def dict_get_def ex_names ex_numbers clean_numeric_1
      record_score_def append_score_def core_score_def elective_score_def strip_def is_space_def ord_def)

lemma rounding_ranking:
  "ranking_rows rounding_scores =
     [(1, \<lparr>course = ''Tax Law'', overall_score = 6743671317026133 / 70368744177664,
            num_responses = 3, core_pref_score = Some (6743671317026133 / 70368744177664),
            core_n = 3, elective_rating_score = None, elective_n = 0\<rparr>)]"
  by (simp add: ranking_rows_def rounding_scores_def ranking_entry_def fmean_three enumerate_eq_zip)

lemma core_step_cases:
  "core_step questions row field st =
     (case clean_numeric (dict_get row field []) of
        Inl e \<Rightarrow> Inl e
      | Inr None \<Rightarrow> Inr st
      | Inr (Some r) \<Rightarrow>
          if 1 \<le> r \<and> r \<le> 8
          then Inr (record_score core_rank (dict_get row ''ResponseId'' [])
                 (parse_course_name (dict_get questions field [])) r ((of_int (9 - r) / 8) * 100) st)
          else Inr st)"
  by (auto simp: core_step_def core_score_def split: sum.splits option.splits)

lemma elective_step_cases:
  "elective_step questions row field st =
     (case clean_numeric (dict_get row field []) of
        Inl e \<Rightarrow> Inl e
      | Inr None \<Rightarrow> Inr st
      | Inr (Some v) \<Rightarrow>
          if 1 \<le> v \<and> v \<le> 5
          then Inr (record_score elective_rating (dict_get row ''ResponseId'' [])
                 (parse_course_name (dict_get questions field [])) v ((of_int (v - 1) / 4) * 100) st)
          else Inr st)"
  by (auto simp: elective_step_def elective_score_def split: sum.splits option.splits)

text \<open>
  Claim C6. The two lemmas above give the normalization as the claim states it: a value
  that \<open>clean_numeric\<close> reads as \<open>r\<close> between 1 and 8 (\<open>v\<close> between 1 and 5 for an
  elective field) is recorded with the score \<open>(9 - r) / 8 * 100\<close> (\<open>(v - 1) / 4 * 100\<close>), and a
  value that is not numeric or out of range leaves the state as it is. The claim that every
  out-of-range value is dropped silently fails on a value of 310 digits: the pattern
  accepts it, \<^verbatim>\<open>float\<close> of it is infinity, \<^verbatim>\<open>int\<close> of infinity raises, and the
  aggregation of a finished record with that value in a core field ends in
  \<^verbatim>\<open>OverflowError\<close>.
\<close>

theorem huge_rank_aborts:
  "clean_numeric (CHR ''1'' # replicate 309 CHR ''0'') = Inl OverflowError \<and>
   aggregate [(''Q35_1'', ''Rank the core courses - Tax Law'')]
     [[(''ResponseId'', ''R_1''), (''Finished'', ''1''),
       (''Q35_1'', CHR ''1'' # replicate 309 CHR ''0'')]] = Inl OverflowError"
proof -
  have f: "is_finished [(''ResponseId'', ''R_1''), (''Finished'', ''1''),
       (''Q35_1'', CHR ''1'' # replicate 309 CHR ''0'')]"
    by (simp add: is_finished_def dict_get_def strip_def is_space_def ord_def)
  have c: "core_fields [(''Q35_1'', ''Rank the core courses - Tax Law'')] = [''Q35_1'']"
    by (simp add: core_fields_def startswith_def)
  have g: "dict_get [(''ResponseId'', ''R_1''), (''Finished'', ''1''),
       (''Q35_1'', CHR ''1'' # replicate 309 CHR ''0'')] ''Q35_1'' [] = CHR ''1'' # replicate 309 CHR ''0''"
    by (simp add: dict_get_def)
  have "core_step [(''Q35_1'', ''Rank the core courses - Tax Law'')]
      [(''ResponseId'', ''R_1''), (''Finished'', ''1''),
       (''Q35_1'', CHR ''1'' # replicate 309 CHR ''0'')] ''Q35_1'' ([], []) = Inl OverflowError"
    by (simp only: core_step_def g clean_numeric_huge sum.case)
  then have "row_step [(''Q35_1'', ''Rank the core courses - Tax Law'')]
      [(''ResponseId'', ''R_1''), (''Finished'', ''1''),
       (''Q35_1'', CHR ''1'' # replicate 309 CHR ''0'')] ([], []) = Inl OverflowError"
    by (simp only: row_step_def f c for_each.simps not_True_eq_False if_False sum.case)
  then have "aggregate [(''Q35_1'', ''Rank the core courses - Tax Law'')]
     [[(''ResponseId'', ''R_1''), (''Finished'', ''1''),
       (''Q35_1'', CHR ''1'' # replicate 309 CHR ''0'')]] = Inl OverflowError"
    by (simp only: aggregate_def for_each.simps sum.case)
  with clean_numeric_huge show ?thesis by (rule conjI)
qed

theorem core_rank_endpoints_witness:
  "is_finished [(''ResponseId'', ''R_4''), (''Finished'', ''1''), (''Q35_1'', ''1'')] \<and>
   ''Q35_1'' \<in> set (core_fields example_questions) \<and>
   dict_get [(''ResponseId'', ''R_4''), (''Finished'', ''1''), (''Q35_1'', ''1'')] ''Q35_1'' [] = ''1'' \<and>
   row_step example_questions [(''ResponseId'', ''R_4''), (''Finished'', ''1''), (''Q35_1'', ''1'')] ([], []) =
     Inr ([\<lparr>response_id = ''R_4'', lr_course = ''Tax Law'', source_type = core_rank,
              response_value = 1, normalized_score = 100\<rparr>], [(''Tax Law'', [100], [])]) \<and>
   \<lparr>response_id = ''R_4'', lr_course = ''Tax Law'', source_type = core_rank,
      response_value = 1, normalized_score = 100\<rparr>
     \<in> set (fst ([\<lparr>response_id = ''R_4'', lr_course = ''Tax Law'', source_type = core_rank,
              response_value = 1, normalized_score = 100\<rparr>], [(''Tax Law'', [100::rat], [] :: rat list)]))"
proof -
  let ?row = "[(''ResponseId'', ''R_4''), (''Finished'', ''1''), (''Q35_1'', ''1'')]"
  have f: "is_finished ?row"
    by (simp add: is_finished_def dict_get_def strip_def is_space_def ord_def)
  have c: "''Q35_1'' \<in> set (core_fields example_questions)"
    by (simp add: core_fields_def example_questions_def startswith_def)
  have g: "dict_get ?row ''Q35_1'' [] = ''1''" by (simp add: dict_get_def)
  have r: "row_step example_questions ?row ([], []) =
     Inr ([\<lparr>response_id = ''R_4'', lr_course = ''Tax Law'', source_type = core_rank,
              response_value = 1, normalized_score = 100\<rparr>], [(''Tax Law'', [100], [])])"
    by (simp add: example_questions_def row_step_def is_finished_def core_fields_def elective_fields_def
      startswith_def core_step_def elective_step_def dict_get_def ex_names ex_numbers clean_numeric_1
      record_score_def append_score_def core_score_def elective_score_def strip_def is_space_def ord_def)
  from core_rank_endpoints [of ?row "''Q35_1''" example_questions "([], [])"
      "([\<lparr>response_id = ''R_4'', lr_course = ''Tax Law'', source_type = core_rank,
              response_value = 1, normalized_score = 100\<rparr>], [(''Tax Law'', [100], [])])"] f c g r
  have "\<lparr>response_id = dict_get ?row ''ResponseId'' [],
          lr_course = parse_course_name (dict_get example_questions ''Q35_1'' []),
          source_type = core_rank, response_value = 1, normalized_score = 100\<rparr>
     \<in> set (fst ([\<lparr>response_id = ''R_4'', lr_course = ''Tax Law'', source_type = core_rank,
              response_value = 1, normalized_score = 100\<rparr>], [(''Tax Law'', [100::rat], [] :: rat list)]))"
    by blast
  with f c g r show ?thesis by (simp add: dict_get_def example_questions_def ex_names)
qed

text \<open>
  Claim C7 as stated gives rank 8 the score 0. A finished record with the value \<open>8\<close> in
  a core field is recorded with 12.5.
\<close>

theorem core_rank_eight_counterexample:
  "aggregate [(''Q35_1'', ''Rank the core courses - Tax Law'')]
     [[(''ResponseId'', ''R_1''), (''Finished'', ''1''), (''Q35_1'', ''8'')]] =
     Inr ([\<lparr>response_id = ''R_1'', lr_course = ''Tax Law'', source_type = core_rank,
              response_value = 8, normalized_score = 25 / 2\<rparr>], [(''Tax Law'', [25 / 2], [])]) \<and>
   (25 / 2 :: rat) \<noteq> 0"
  by (simp add: aggregate_def row_step_def is_finished_def core_fields_def elective_fields_def
      startswith_def core_step_def elective_step_def dict_get_def ex_names ex_numbers clean_numeric_8
      record_score_def append_score_def core_score_def elective_score_def strip_def is_space_def ord_def)

theorem course_ranking_witness:
  "aggregate example_questions example_records = Inr (example_long_rows, example_scores) \<and>
   map (\<lambda>kr. (fst kr, course (snd kr), overall_score (snd kr), num_responses (snd kr)))
     (ranking_rows example_scores) =
     [(1, ''Ethics'', 100, 1), (2, ''Audit'', 175 / 2, 1), (3, ''Tax Law'', 175 / 2, 1)] \<and>
   set (map (\<lambda>kr. course (snd kr)) (ranking_rows example_scores)) = lr_course ` set example_long_rows \<and>
   ranks_before (snd (ranking_rows example_scores ! 1)) (snd (ranking_rows example_scores ! 2)) \<and>
   aggregate rounding_questions rounding_records = Inr (rounding_long_rows, rounding_scores) \<and>
   map (\<lambda>kr. (fst kr, course (snd kr), overall_score (snd kr), num_responses (snd kr)))
     (ranking_rows rounding_scores) = [(1, ''Tax Law'', 6743671317026133 / 70368744177664, 3)] \<and>
   pooled ''Tax Law'' rounding_long_rows = [175 / 2, 100, 100] \<and>
   overall_score (snd (hd (ranking_rows rounding_scores))) = round_double (575 / 6) \<and>
   overall_score (snd (hd (ranking_rows rounding_scores))) \<noteq> 575 / 6 \<and>
   \<bar>overall_score (snd (hd (ranking_rows rounding_scores))) - 575 / 6\<bar> \<le> 1 / 2 ^ 47"
proof -
  note t = course_ranking [OF ex_aggregate]
  have l: "length (ranking_rows example_scores) = 3"
    by (simp add: ranking_rows_def example_scores_def ranking_entry_def Let_def)
  from t have "set (map (\<lambda>kr. course (snd kr)) (ranking_rows example_scores)) =
      lr_course ` set example_long_rows" by blast
  moreover from t l have "ranks_before (snd (ranking_rows example_scores ! 1))
      (snd (ranking_rows example_scores ! 2))" by simp
  moreover note ex_aggregate ex_ranking rounding_aggregate
  moreover have m: "map (\<lambda>kr. (fst kr, course (snd kr), overall_score (snd kr), num_responses (snd kr)))
     (ranking_rows rounding_scores) = [(1, ''Tax Law'', 6743671317026133 / 70368744177664, 3)]"
    by (simp add: rounding_ranking)
  moreover have p: "pooled ''Tax Law'' rounding_long_rows = [175 / 2, 100, 100]"
    by (simp add: pooled_def scores_of_def rounding_long_rows_def)
  moreover have "overall_score (snd (hd (ranking_rows rounding_scores))) = round_double (575 / 6) \<and>
      \<bar>overall_score (snd (hd (ranking_rows rounding_scores))) - 575 / 6\<bar> \<le> 1 / 2 ^ 47"
  proof -
    note u = course_ranking [OF rounding_aggregate]
    have h: "hd (ranking_rows rounding_scores) \<in> set (ranking_rows rounding_scores)"
      by (simp add: rounding_ranking)
    have c: "course (snd (hd (ranking_rows rounding_scores))) = ''Tax Law''"
      by (simp add: rounding_ranking)
    from u have "\<forall>kr\<in>set (ranking_rows rounding_scores).
       length (pooled (course (snd kr)) rounding_long_rows) < 2 ^ 45 \<longrightarrow>
          overall_score (snd kr) =
            round_double (sum_list (pooled (course (snd kr)) rounding_long_rows) /
              of_nat (length (pooled (course (snd kr)) rounding_long_rows))) \<and>
          \<bar>overall_score (snd kr) -
             sum_list (pooled (course (snd kr)) rounding_long_rows) /
               of_nat (length (pooled (course (snd kr)) rounding_long_rows))\<bar> \<le> 1 / 2 ^ 47"
      by blast
    from this h have "length (pooled (course (snd (hd (ranking_rows rounding_scores)))) rounding_long_rows) < 2 ^ 45 \<longrightarrow>
          overall_score (snd (hd (ranking_rows rounding_scores))) =
            round_double (sum_list (pooled (course (snd (hd (ranking_rows rounding_scores)))) rounding_long_rows) /
              of_nat (length (pooled (course (snd (hd (ranking_rows rounding_scores)))) rounding_long_rows))) \<and>
          \<bar>overall_score (snd (hd (ranking_rows rounding_scores))) -
             sum_list (pooled (course (snd (hd (ranking_rows rounding_scores)))) rounding_long_rows) /
               of_nat (length (pooled (course (snd (hd (ranking_rows rounding_scores)))) rounding_long_rows))\<bar> \<le> 1 / 2 ^ 47"
      by (rule bspec)
    then have i: "length [175 / 2, 100, 100 :: rat] < 2 ^ 45 \<longrightarrow>
          overall_score (snd (hd (ranking_rows rounding_scores))) =
            round_double (sum_list [175 / 2, 100, 100] / of_nat (length [175 / 2, 100, 100 :: rat])) \<and>
          \<bar>overall_score (snd (hd (ranking_rows rounding_scores))) -
             sum_list [175 / 2, 100, 100] / of_nat (length [175 / 2, 100, 100 :: rat])\<bar> \<le> 1 / 2 ^ 47"
      unfolding c p .
    have n: "length [175 / 2, 100, 100 :: rat] < 2 ^ 45" by simp
    have e: "sum_list [175 / 2, 100, 100] / of_nat (length [175 / 2, 100, 100 :: rat]) = (575 / 6 :: rat)"
      by simp
    from i n have "overall_score (snd (hd (ranking_rows rounding_scores))) =
            round_double (sum_list [175 / 2, 100, 100] / of_nat (length [175 / 2, 100, 100 :: rat])) \<and>
          \<bar>overall_score (snd (hd (ranking_rows rounding_scores))) -
             sum_list [175 / 2, 100, 100] / of_nat (length [175 / 2, 100, 100 :: rat])\<bar> \<le> 1 / 2 ^ 47"
      by (rule mp)
    then show ?thesis unfolding e .
  qed
  moreover have "overall_score (snd (hd (ranking_rows rounding_scores))) \<noteq> 575 / 6"
    by (simp add: rounding_ranking)
  ultimately show ?thesis by blast
qed

section \<open>The example workbook from the archive to the ranking\<close>

lemma ex_parse:
  "parse_xlsx example_archive =
     Inr ([''Finished'', ''Q35_1''],
          [[(''Finished'', ''1''), (''Q35_1'', ''1'')], [(''Finished'', ''''), (''Q35_1'', '''')]],
          [(''Finished'', ''Done?''), (''Q35_1'', ''Tax Law'')])"
proof -
  have "map_of example_archive ''xl/worksheets/sheet1.xml'' = Some example_sheet"
    by (simp add: example_archive_def)
  moreover have "assemble [[(0, ''Finished''), (1, ''Q35_1'')], [(0, ''Done?''), (1, ''Tax Law'')], [],
          [(0, ''1''), (1, ''1'')], [(0, '''')]] =
     Inr ([''Finished'', ''Q35_1''],
          [[(''Finished'', ''1''), (''Q35_1'', ''1'')], [(''Finished'', ''''), (''Q35_1'', '''')]],
          [(''Finished'', ''Done?''), (''Q35_1'', ''Tax Law'')])"
    by (simp add: assemble_def py_max_def max_default_def mk_record_def dict_get_def
        enumerate_eq_zip upto.simps Let_def)
  ultimately show ?thesis by (simp add: parse_xlsx_def ex_pool ex_rows)
qed

lemma ex_analyze:
  "analyze example_archive =
     Inr ([\<lparr>response_id = [], lr_course = ''Tax Law'', source_type = core_rank,
              response_value = 1, normalized_score = 100\<rparr>],
          [(1, \<lparr>course = ''Tax Law'', overall_score = 100, num_responses = 1,
                 core_pref_score = Some 100, core_n = 1, elective_rating_score = None,
                 elective_n = 0\<rparr>)])"
proof -
  have n: "parse_course_name ''Tax Law'' = ''Tax Law''"
    by (simp add: parse_course_name_def startswith_def strip_def is_space_def ord_def)
  have "aggregate [(''Finished'', ''Done?''), (''Q35_1'', ''Tax Law'')]
      [[(''Finished'', ''1''), (''Q35_1'', ''1'')], [(''Finished'', ''''), (''Q35_1'', '''')]] =
     Inr ([\<lparr>response_id = [], lr_course = ''Tax Law'', source_type = core_rank,
              response_value = 1, normalized_score = 100\<rparr>], [(''Tax Law'', [100], [])])"
    by (simp add: aggregate_def row_step_def is_finished_def core_fields_def elective_fields_def
      startswith_def core_step_def elective_step_def dict_get_def n ex_numbers clean_numeric_1
      record_score_def append_score_def core_score_def elective_score_def strip_def is_space_def ord_def)
  moreover have "ranking_rows [(''Tax Law'', [100], [])] =
      [(1, \<lparr>course = ''Tax Law'', overall_score = 100, num_responses = 1,
                 core_pref_score = Some 100, core_n = 1, elective_rating_score = None,
                 elective_n = 0\<rparr>)]"
    by (simp add: ranking_rows_def ranking_entry_def fmean_100 enumerate_eq_zip)
  ultimately show ?thesis by (simp add: analyze_def ex_parse)
qed

end
